theory Spec2Isabelle
  imports Complex_Main "HOL-Library.Multiset"
begin

chapter \<open>The load generator of the chat application\<close>

text \<open>
  A model of the load generator's cleanup tracker, chaos transport, chat behaviour and
  control plane (Go, under \<open>loadgen/\<close>), and the properties of it that are proved or
  refuted. Everything outside the program is a parameter: the answers of the services,
  the random draws, the clock, the standard library's parsing and formatting.
\<close>

section \<open>The environment: outbound HTTP\<close>

text \<open>
  The load generator talks to its target services through \<open>c.client.Do(req)\<close>. A request
  is its method and URL. What comes back is either \<open>err != nil\<close> or a response with a
  status code and a body; the body is kept as the JSON value it holds (\<open>None\<close> when it is
  not JSON at all). The services are outside the program: their answers are a parameter,
  a function of everything requested so far and of the request at hand. Every call
  of \<open>client_Do\<close> is appended to the log, so that "no request is made" is a statement
  about the log. Building the request (\<open>http.NewRequestWithContext\<close>) is taken to succeed.
\<close>

datatype json =
    JNull
  | JBool bool
  | JNum real
  | JStr string
  | JArr "json list"
  | JObj "(string \<times> json) list"

datatype request = Req string string

datatype response = Err | Resp int "json option"

type_synonym net = "request list \<Rightarrow> request \<Rightarrow> response"

definition client_Do :: "net \<Rightarrow> request list \<Rightarrow> request \<Rightarrow> response \<times> request list" where
  "client_Do srv lg req = (srv lg req, lg @ [req])"

text \<open>Reading a key of a decoded JSON object: the decoder keeps the last duplicate.\<close>

definition lookup :: "(string \<times> json) list \<Rightarrow> string \<Rightarrow> json option" where
  "lookup fs k = map_of (rev fs) k"

text \<open>\<open>strings.HasPrefix(s, prefix)\<close>.\<close>

definition HasPrefix :: "string \<Rightarrow> string \<Rightarrow> bool" where
  "HasPrefix s p = (take (length p) s = p)"

section \<open>Configuration (loadgen/internal/config/config.go)\<close>

record Config =
  UserService_BaseURL :: string
  ChatService_BaseURL :: string
  PostsService_BaseURL :: string

section \<open>Randomness\<close>

text \<open>
  \<open>rand.Shuffle(n, swap)\<close> of the standard library walks \<open>i\<close> from \<open>n - 1\<close> down to
  \<open>1\<close> and swaps position \<open>i\<close> with a position drawn from \<open>[0, i]\<close>. The draws are a
  parameter: \<open>rnd i\<close> is the raw number drawn at step \<open>i\<close>, reduced modulo \<open>i + 1\<close>.
\<close>

definition swap :: "nat \<Rightarrow> nat \<Rightarrow> 'a list \<Rightarrow> 'a list" where
  "swap i j xs = xs[i := xs ! j, j := xs ! i]"

fun Shuffle_from :: "(nat \<Rightarrow> nat) \<Rightarrow> nat \<Rightarrow> 'a list \<Rightarrow> 'a list" where
  "Shuffle_from rnd 0 xs = xs"
| "Shuffle_from rnd (Suc i) xs = Shuffle_from rnd i (swap (Suc i) (rnd (Suc i) mod Suc (Suc i)) xs)"

definition Shuffle :: "(nat \<Rightarrow> nat) \<Rightarrow> 'a list \<Rightarrow> 'a list" where
  "Shuffle rnd xs = Shuffle_from rnd (length xs - 1) xs"

section \<open>Cleanup tracker (loadgen/internal/cleanup/cleanup.go)\<close>

text \<open>
  The struct \<open>Cleanup\<close> with its configuration and the tracked usernames; the HTTP client
  is the environment above. This part reads \<open>c.users\<close> as the list of strings any reader of
  the slice sees; the slice's backing array is modelled further below.
\<close>

record Cleanup =
  config :: Config
  users :: "string list"

definition New :: "Config \<Rightarrow> Cleanup" where
  "New cfg = \<lparr>config = cfg, users = []\<rparr>"

text \<open>The scan \<open>for _, u := range xs { if u == username { ... break/return } }\<close>.\<close>

fun found :: "string \<Rightarrow> string list \<Rightarrow> bool" where
  "found username [] = False"
| "found username (u # us) = (if u = username then True else found username us)"

definition AddUser :: "string \<Rightarrow> Cleanup \<Rightarrow> Cleanup" where
  "AddUser username c =
     (if found username (users c) then c
      else c\<lparr>users := users c @ [username]\<rparr>)"

definition GetTrackedUsers :: "Cleanup \<Rightarrow> string list" where
  "GetTrackedUsers c = users c"

text \<open>
  \<open>cleanupUsers\<close>: one DELETE per username, in order. Status 200 or 204 puts the name on
  \<open>deleted\<close>; a transport error records 0 and any other status records itself in \<open>failed\<close>.
\<close>

definition delete_request :: "Config \<Rightarrow> string \<Rightarrow> request" where
  "delete_request cfg u = Req ''DELETE'' (UserService_BaseURL cfg @ ''/api/users/'' @ u)"

fun cleanupUsers_loop ::
  "net \<Rightarrow> Config \<Rightarrow> string list \<Rightarrow> (string list \<times> (string \<rightharpoonup> int)) \<times> request list
     \<Rightarrow> (string list \<times> (string \<rightharpoonup> int)) \<times> request list" where
  "cleanupUsers_loop srv cfg [] acc = acc"
| "cleanupUsers_loop srv cfg (u # us) ((deleted, failed), lg) =
     (case client_Do srv lg (delete_request cfg u) of
        (Err, lg') \<Rightarrow> cleanupUsers_loop srv cfg us ((deleted, failed(u \<mapsto> 0)), lg')
      | (Resp code body, lg') \<Rightarrow>
          if code = 200 \<or> code = 204
          then cleanupUsers_loop srv cfg us ((deleted @ [u], failed), lg')
          else cleanupUsers_loop srv cfg us ((deleted, failed(u \<mapsto> code)), lg'))"

definition cleanupUsers ::
  "net \<Rightarrow> Config \<Rightarrow> request list \<Rightarrow> string list
     \<Rightarrow> (string list \<times> (string \<rightharpoonup> int)) \<times> request list" where
  "cleanupUsers srv cfg lg us = cleanupUsers_loop srv cfg us (([], Map.empty), lg)"

text \<open>
  What the user service does in one call of \<open>cleanupUsers\<close>: \<open>responses\<close> are its answers to
  the DELETEs, in order (each answer may depend on all earlier requests); an answer
  acknowledges the deletion when it comes with status 200 or 204; \<open>acknowledged_names\<close> are
  the names whose DELETE was acknowledged.
\<close>

fun responses :: "net \<Rightarrow> Config \<Rightarrow> request list \<Rightarrow> string list \<Rightarrow> response list" where
  "responses srv cfg lg [] = []"
| "responses srv cfg lg (u # us) =
     srv lg (delete_request cfg u) # responses srv cfg (lg @ [delete_request cfg u]) us"

definition acknowledged :: "response \<Rightarrow> bool" where
  "acknowledged r = (case r of Err \<Rightarrow> False | Resp code body \<Rightarrow> code = 200 \<or> code = 204)"

definition acknowledged_names :: "net \<Rightarrow> Config \<Rightarrow> request list \<Rightarrow> string list \<Rightarrow> string list" where
  "acknowledged_names srv cfg lg us =
     map fst (filter (\<lambda>(u, r). acknowledged r) (zip us (responses srv cfg lg us)))"

definition DeleteUser ::
  "net \<Rightarrow> string \<Rightarrow> Cleanup \<Rightarrow> request list \<Rightarrow> (bool \<times> int) \<times> Cleanup \<times> request list" where
  "DeleteUser srv username c lg =
     (if username = [] \<or> \<not> HasPrefix username ''user_'' then ((False, 400), c, lg)
      else
        (case cleanupUsers srv (config c) lg [username] of
           ((deleted, failed), lg') \<Rightarrow>
             if length deleted = 1
             then ((True, 200), c\<lparr>users := filter (\<lambda>u. u \<noteq> username) (users c)\<rparr>, lg')
             else
               (case failed username of
                  Some code \<Rightarrow> ((False, code), c, lg')
                | None \<Rightarrow> ((False, 0), c, lg'))))"

text \<open>
  The cascade to the chat and posts services. The body of the GET is decoded into
  \<open>[]map[string]interface{}\<close> with the decoding error dropped: anything that is not an
  array leaves the slice empty, and an element that is not an object is an empty map. An
  item is deleted when its \<open>username\<close> is a string equal to one of the target users and
  it has an \<open>id\<close>; the URL ends in the \<open>%v\<close> rendering of the id, a function of the
  standard library taken as the parameter \<open>fmt_v\<close>. A DELETE counts when it returns
  without transport error, whatever its status.
\<close>

definition decode_items :: "json option \<Rightarrow> (string \<times> json) list list" where
  "decode_items body =
     (case body of
        Some (JArr xs) \<Rightarrow> map (\<lambda>x. case x of JObj fs \<Rightarrow> fs | _ \<Rightarrow> []) xs
      | _ \<Rightarrow> [])"

fun cascade_loop ::
  "net \<Rightarrow> (json \<Rightarrow> string) \<Rightarrow> string \<Rightarrow> string list \<Rightarrow> (string \<times> json) list list
     \<Rightarrow> int \<times> request list \<Rightarrow> int \<times> request list" where
  "cascade_loop srv fmt_v url us [] acc = acc"
| "cascade_loop srv fmt_v url us (item # items) (deletedCount, lg) =
     (case lookup item ''username'' of
        Some (JStr username) \<Rightarrow>
          if found username us
          then
            (case lookup item ''id'' of
               Some ident \<Rightarrow>
                 (case client_Do srv lg (Req ''DELETE'' (url @ ''/'' @ fmt_v ident)) of
                    (Err, lg') \<Rightarrow> cascade_loop srv fmt_v url us items (deletedCount, lg')
                  | (Resp code body, lg') \<Rightarrow>
                      cascade_loop srv fmt_v url us items (deletedCount + 1, lg'))
             | None \<Rightarrow> cascade_loop srv fmt_v url us items (deletedCount, lg))
          else cascade_loop srv fmt_v url us items (deletedCount, lg)
      | _ \<Rightarrow> cascade_loop srv fmt_v url us items (deletedCount, lg))"

definition cleanupChatMessagesFromUsers ::
  "net \<Rightarrow> (json \<Rightarrow> string) \<Rightarrow> Config \<Rightarrow> request list \<Rightarrow> string list \<Rightarrow> int \<times> request list" where
  "cleanupChatMessagesFromUsers srv fmt_v cfg lg us =
     (case client_Do srv lg (Req ''GET'' (ChatService_BaseURL cfg @ ''/api/messages'')) of
        (Err, lg') \<Rightarrow> (0, lg')
      | (Resp code body, lg') \<Rightarrow>
          cascade_loop srv fmt_v (ChatService_BaseURL cfg @ ''/api/messages'') us
            (decode_items body) (0, lg'))"

definition cleanupPostsFromUsers ::
  "net \<Rightarrow> (json \<Rightarrow> string) \<Rightarrow> Config \<Rightarrow> request list \<Rightarrow> string list \<Rightarrow> int \<times> request list" where
  "cleanupPostsFromUsers srv fmt_v cfg lg us =
     (case client_Do srv lg (Req ''GET'' (PostsService_BaseURL cfg @ ''/api/posts'')) of
        (Err, lg') \<Rightarrow> (0, lg')
      | (Resp code body, lg') \<Rightarrow>
          cascade_loop srv fmt_v (PostsService_BaseURL cfg @ ''/api/posts'') us
            (decode_items body) (0, lg'))"

text \<open>
  \<open>ReduceLoad(ctx, usersToDelete)\<close>. The guard turns a count that is not positive, or
  larger than the tracked list, into the length of the list. \<open>selectedUsers\<close> is the first
  \<open>usersToDelete\<close> names of a shuffled copy. The result is the number of accounts deleted;
  the tracked list keeps the names that are not among the selected ones.
\<close>

definition selectedUsers :: "(nat \<Rightarrow> nat) \<Rightarrow> int \<Rightarrow> string list \<Rightarrow> string list" where
  "selectedUsers rnd n us =
     (let usersToDelete = (if n \<le> 0 \<or> n > int (length us) then int (length us) else n);
          all = Shuffle rnd us
      in if usersToDelete < int (length all) then take (nat usersToDelete) all else all)"

definition ReduceLoad ::
  "net \<Rightarrow> (json \<Rightarrow> string) \<Rightarrow> (nat \<Rightarrow> nat) \<Rightarrow> int \<Rightarrow> Cleanup \<Rightarrow> request list
     \<Rightarrow> int \<times> Cleanup \<times> request list" where
  "ReduceLoad srv fmt_v rnd n c lg =
     (let selected = selectedUsers rnd n (users c) in
      case cleanupUsers srv (config c) lg selected of
        ((deletedList, failed), lg1) \<Rightarrow>
          (let deletedUsers = int (length deletedList);
               lg2 = snd (cleanupChatMessagesFromUsers srv fmt_v (config c) lg1 selected);
               lg3 = snd (cleanupPostsFromUsers srv fmt_v (config c) lg2 selected);
               remaining = filter (\<lambda>user. \<not> found user selected) (users c)
           in (deletedUsers, c\<lparr>users := remaining\<rparr>, lg3)))"

text \<open>
  \<open>DeleteTestUsers(ctx, count)\<close>. The dashboard body is decoded into
  \<open>map[string]interface{}\<close>: an object, or \<open>null\<close> (which leaves the map nil without an
  error); everything else is a decoding error. The \<open>seen\<close> map of the deduplication
  holds exactly the names already appended to \<open>uniq\<close>.
\<close>

definition decode_object :: "json option \<Rightarrow> (string \<times> json) list option" where
  "decode_object body =
     (case body of
        Some (JObj fs) \<Rightarrow> Some fs
      | Some JNull \<Rightarrow> Some []
      | _ \<Rightarrow> None)"

fun candidates_loop :: "json list \<Rightarrow> string list \<Rightarrow> string list" where
  "candidates_loop [] candidates = candidates"
| "candidates_loop (v # arr) candidates =
     (case v of
        JStr it \<Rightarrow>
          if HasPrefix it ''user_'' then candidates_loop arr (candidates @ [it])
          else candidates_loop arr candidates
      | JObj it \<Rightarrow>
          (case lookup it ''username'' of
             Some (JStr uname) \<Rightarrow>
               if HasPrefix uname ''user_'' then candidates_loop arr (candidates @ [uname])
               else candidates_loop arr candidates
           | _ \<Rightarrow> candidates_loop arr candidates)
      | _ \<Rightarrow> candidates_loop arr candidates)"

definition dashboard_candidates :: "(string \<times> json) list \<Rightarrow> string list" where
  "dashboard_candidates data =
     (case lookup data ''users'' of
        Some (JArr arr) \<Rightarrow> candidates_loop arr []
      | _ \<Rightarrow> [])"

fun uniq_loop :: "string list \<Rightarrow> string list \<Rightarrow> string list" where
  "uniq_loop [] uniq = uniq"
| "uniq_loop (s # ss) uniq =
     (if s \<in> set uniq then uniq_loop ss uniq else uniq_loop ss (uniq @ [s]))"

definition toDelete :: "(nat \<Rightarrow> nat) \<Rightarrow> int \<Rightarrow> string list \<Rightarrow> string list" where
  "toDelete rnd cnt candidates =
     (let uniq = Shuffle rnd (uniq_loop candidates [])
      in if cnt < int (length uniq) then take (nat cnt) uniq else uniq)"

text \<open>The fallback: the tracked names that carry the test prefix.\<close>

definition fallback_candidates :: "Cleanup \<Rightarrow> string list" where
  "fallback_candidates c = filter (\<lambda>u. HasPrefix u ''user_'') (users c)"

definition dashboard_request :: "Config \<Rightarrow> request" where
  "dashboard_request cfg = Req ''GET'' (UserService_BaseURL cfg @ ''/api/users/dashboard'')"

definition DeleteTestUsers ::
  "net \<Rightarrow> (nat \<Rightarrow> nat) \<Rightarrow> int \<Rightarrow> Cleanup \<Rightarrow> request list
     \<Rightarrow> (string list \<times> (string \<rightharpoonup> int)) \<times> Cleanup \<times> request list" where
  "DeleteTestUsers srv rnd cnt c lg =
     (if cnt \<le> 0 then (([], Map.empty), c, lg)
      else
        (case client_Do srv lg (dashboard_request (config c)) of
           (Err, lg1) \<Rightarrow> (([], Map.empty), c, lg1)
         | (Resp code body, lg1) \<Rightarrow>
             (case decode_object body of
                None \<Rightarrow> (([], Map.empty), c, lg1)
              | Some data \<Rightarrow>
                  (let candidates = dashboard_candidates data;
                       candidates =
                         (if length candidates = 0
                          then candidates @ fallback_candidates c
                          else candidates)
                   in if length candidates = 0 then (([], Map.empty), c, lg1)
                      else
                        (case cleanupUsers srv (config c) lg1 (toDelete rnd cnt candidates) of
                           ((deleted, failed), lg2) \<Rightarrow>
                             ((deleted, failed),
                              c\<lparr>users := filter (\<lambda>u. u \<notin> set deleted) (users c)\<rparr>,
                              lg2))))))"

text \<open>
  What the tracked list looks like when each name of a sequence is seen for the first
  time: the reading of "each distinct name once, in first-seen order".
\<close>

fun first_seen :: "string list \<Rightarrow> string list" where
  "first_seen [] = []"
| "first_seen (u # us) = u # removeAll u (first_seen us)"

text \<open>
  The launch loop of \<open>DeleteRandomTestUsersConcurrent\<close>. Each round starts with
  \<open>select { case <-ctx.Done(): break; default: }\<close>. A \<open>break\<close> inside a \<open>select\<close> ends the
  \<open>select\<close> statement, not the enclosing \<open>for\<close>: whichever case runs, control goes on to
  \<open>wg.Add(1)\<close>, the semaphore and the \<open>go\<close> statement. \<open>cancelled k\<close> tells whether the
  context is done when round \<open>k\<close> looks at it; the result lists the usernames a deletion
  task is started for, in order. The tasks themselves run concurrently and are not part
  of this function.
\<close>

datatype flow = Proceed | LeaveLoop

definition select_ctx_Done :: "bool \<Rightarrow> flow" where
  "select_ctx_Done done = (if done then Proceed else Proceed)"

fun launch_loop :: "(nat \<Rightarrow> bool) \<Rightarrow> nat \<Rightarrow> string list \<Rightarrow> string list" where
  "launch_loop cancelled k [] = []"
| "launch_loop cancelled k (u # us) =
     (case select_ctx_Done (cancelled k) of
        LeaveLoop \<Rightarrow> []
      | Proceed \<Rightarrow> u # launch_loop cancelled (Suc k) us)"

text \<open>
  \<open>DeleteRandomTestUsersConcurrent(ctx, count, concurrency)\<close> up to its launch loop: the
  candidates are selected as in \<open>DeleteTestUsers\<close>, \<open>concurrency\<close> (5 when not positive,
  at most the number of names to delete) is the capacity of the semaphore, and the loop
  starts the tasks. The result is the list of usernames a task is started for, with the
  requests made up to there.
\<close>

definition DeleteRandomTestUsersConcurrent_launches ::
  "net \<Rightarrow> (nat \<Rightarrow> nat) \<Rightarrow> (nat \<Rightarrow> bool) \<Rightarrow> int \<Rightarrow> int \<Rightarrow> Cleanup \<Rightarrow> request list
     \<Rightarrow> string list \<times> request list" where
  "DeleteRandomTestUsersConcurrent_launches srv rnd cancelled cnt concurrency c lg =
     (if cnt \<le> 0 then ([], lg)
      else
        (case client_Do srv lg (dashboard_request (config c)) of
           (Err, lg1) \<Rightarrow> ([], lg1)
         | (Resp code body, lg1) \<Rightarrow>
             (case decode_object body of
                None \<Rightarrow> ([], lg1)
              | Some data \<Rightarrow>
                  (let candidates = dashboard_candidates data;
                       candidates =
                         (if length candidates = 0
                          then candidates @ fallback_candidates c
                          else candidates)
                   in if length candidates = 0 then ([], lg1)
                      else
                        (let selected = toDelete rnd cnt candidates;
                             concurrency = (if concurrency \<le> 0 then 5 else concurrency);
                             concurrency =
                               (if concurrency > int (length selected)
                                then int (length selected) else concurrency)
                         in (launch_loop cancelled 0 selected, lg1))))))"

section \<open>The tracked list in memory\<close>

text \<open>
  \<open>GetTrackedUsers\<close> returns \<open>c.users\<close> itself, a slice header, and the control plane
  stores that header in its reports. Whether a later operation of the tracker can change
  what a report shows depends on the backing arrays, so here \<open>c.users\<close> is a slice header
  (array, length, capacity) over a memory of arrays. \<open>brk\<close> is the first address not yet
  handed out. \<open>elems\<close> is what a reader of a slice sees.

  \<open>make([]string, n)\<close> takes a new array of \<open>n\<close> empty strings. \<open>append(s, x)\<close> writes
  \<open>x\<close> at index \<open>len(s)\<close> of the array of \<open>s\<close> when the capacity allows, and otherwise
  copies the elements into a new array; how much room the new array has beyond the one
  element is the runtime's choice (\<open>grow\<close>, a parameter).

  The slices that are local to one call and never stored in \<open>c.users\<close> (\<open>all\<close>,
  \<open>selectedUsers\<close>, \<open>candidates\<close>, \<open>uniq\<close>, \<open>toDelete\<close>, \<open>deleted\<close>) are built from
  \<open>make\<close> and \<open>append\<close> inside that call; they stay lists, computed by the functions of
  the tracker section from what \<open>c.users\<close> holds. \<open>remaining\<close>, which becomes \<open>c.users\<close>,
  is built in memory, element by element, reading \<open>c.users\<close> by index.

  \<open>Cleanup\<close> has no lock, the generator calls \<open>AddUser\<close> from one goroutine per user, and
  the handlers of the control plane call the deleting operations without a lock. So a call
  of the tracker is not one step: it is a sequence of steps on the shared memory, and the
  steps of several calls may alternate.
\<close>

record slice =
  ptr :: nat
  len :: nat
  cap :: nat

record memory =
  arrays :: "nat \<Rightarrow> string list"
  brk :: nat

definition elems :: "memory \<Rightarrow> slice \<Rightarrow> string list" where
  "elems m s = take (len s) (arrays m (ptr s))"

definition make_slice :: "nat \<Rightarrow> memory \<Rightarrow> slice \<times> memory" where
  "make_slice n m =
     (\<lparr>ptr = brk m, len = n, cap = n\<rparr>,
      m\<lparr>arrays := (arrays m)(brk m := replicate n []), brk := Suc (brk m)\<rparr>)"

definition append1 :: "(nat \<Rightarrow> nat) \<Rightarrow> slice \<Rightarrow> string \<Rightarrow> memory \<Rightarrow> slice \<times> memory" where
  "append1 grow s x m =
     (if len s < cap s
      then (s\<lparr>len := Suc (len s)\<rparr>,
            m\<lparr>arrays := (arrays m)(ptr s := (arrays m (ptr s))[len s := x])\<rparr>)
      else (\<lparr>ptr = brk m, len = Suc (len s), cap = Suc (len s) + grow (cap s)\<rparr>,
            m\<lparr>arrays := (arrays m)(brk m := elems m s @ [x] @ replicate (grow (cap s)) []),
              brk := Suc (brk m)\<rparr>))"

record Cleanup_mem =
  config_mem :: Config
  users_mem :: slice

record process =
  tracker :: Cleanup_mem
  heap :: memory
  sent :: "request list"

definition New_mem :: "Config \<Rightarrow> memory \<Rightarrow> Cleanup_mem \<times> memory" where
  "New_mem cfg m = (case make_slice 0 m of (s, m') \<Rightarrow> (\<lparr>config_mem = cfg, users_mem = s\<rparr>, m'))"

definition tracked_list :: "process \<Rightarrow> string list" where
  "tracked_list p = elems (heap p) (users_mem (tracker p))"

definition GetTrackedUsers_mem :: "process \<Rightarrow> slice" where
  "GetTrackedUsers_mem p = users_mem (tracker p)"

text \<open>
  A call in progress, with what it holds in local variables, and \<open>micro\<close>, its next step.
  Loading or storing the three words of a slice header counts as one step.

  \<open>AddUser(username)\<close>: \<open>AddScan\<close> evaluates \<open>c.users\<close> for the \<open>range\<close> loop and looks for the
  name (the scan only reads, and is one step); \<open>AddLoad\<close> evaluates \<open>c.users\<close> as the
  argument of \<open>append\<close>; \<open>AddAppend\<close> runs \<open>append\<close> on the header it has loaded: it writes
  the element, or allocates and copies; \<open>AddStore\<close> assigns the result to \<open>c.users\<close>.

  The loop that rebuilds the list (in \<open>DeleteUser\<close>, \<open>ReduceLoad\<close> and \<open>DeleteTestUsers\<close>):
  \<open>RebuildBegin\<close> makes \<open>remaining\<close> and evaluates \<open>c.users\<close> for the \<open>range\<close> loop;
  \<open>Rebuild\<close> holds the test that keeps a name, the header being ranged over, the indices
  still to visit and \<open>remaining\<close>; a round reads one element through the loaded header and
  appends it when it is kept; with no index left, \<open>remaining\<close> is assigned to \<open>c.users\<close>.
\<close>

datatype call =
    AddScan string
  | AddLoad string
  | AddAppend string slice
  | AddStore slice
  | RebuildBegin "string \<Rightarrow> bool"
  | Rebuild "string \<Rightarrow> bool" slice "nat list" slice
  | Done

fun micro :: "(nat \<Rightarrow> nat) \<Rightarrow> call \<Rightarrow> process \<Rightarrow> call \<times> process" where
  "micro grow (AddScan username) p =
     (if found username (tracked_list p) then (Done, p) else (AddLoad username, p))"
| "micro grow (AddLoad username) p = (AddAppend username (users_mem (tracker p)), p)"
| "micro grow (AddAppend username h) p =
     (case append1 grow h username (heap p) of (s, m) \<Rightarrow> (AddStore s, p\<lparr>heap := m\<rparr>))"
| "micro grow (AddStore s) p = (Done, p\<lparr>tracker := (tracker p)\<lparr>users_mem := s\<rparr>\<rparr>)"
| "micro grow (RebuildBegin keep) p =
     (case make_slice 0 (heap p) of
        (remaining, m) \<Rightarrow>
          (Rebuild keep (users_mem (tracker p)) [0..<len (users_mem (tracker p))] remaining,
           p\<lparr>heap := m\<rparr>))"
| "micro grow (Rebuild keep src idx remaining) p =
     (case idx of
        [] \<Rightarrow> (Done, p\<lparr>tracker := (tracker p)\<lparr>users_mem := remaining\<rparr>\<rparr>)
      | i # is \<Rightarrow>
          (let user = arrays (heap p) (ptr src) ! i
           in if keep user
              then (case append1 grow remaining user (heap p) of
                      (s, m) \<Rightarrow> (Rebuild keep src is s, p\<lparr>heap := m\<rparr>))
              else (Rebuild keep src is remaining, p)))"
| "micro grow Done p = (Done, p)"

text \<open>
  \<open>finish\<close> runs a call to its end with nothing in between: the schedule in which the
  call is alone. \<open>rank\<close> bounds the steps a call still has to take.
\<close>

fun finished :: "call \<Rightarrow> bool" where
  "finished Done = True"
| "finished c = False"

fun rank :: "call \<Rightarrow> process \<Rightarrow> nat" where
  "rank (AddScan username) p = 4"
| "rank (AddLoad username) p = 3"
| "rank (AddAppend username h) p = 2"
| "rank (AddStore s) p = 1"
| "rank (RebuildBegin keep) p = len (users_mem (tracker p)) + 3"
| "rank (Rebuild keep src is remaining) p = length is + 1"
| "rank Done p = 0"

function finish :: "(nat \<Rightarrow> nat) \<Rightarrow> call \<Rightarrow> process \<Rightarrow> process" where
  "finish grow c p =
     (if finished c then p else (case micro grow c p of (c', p') \<Rightarrow> finish grow c' p'))"
  by pat_completeness auto
termination
  apply (relation "measure (\<lambda>(grow, c, p). rank c p)")
   apply simp
  apply (case_tac c)
        apply (auto simp: make_slice_def Let_def split: if_splits prod.splits list.splits)
  done

text \<open>
  The rebuilding loop and the whole rebuild as they come out when the call is alone
  (lemmas \<open>finish_Rebuild\<close> and \<open>finish_RebuildBegin\<close>).
\<close>

fun remaining_loop ::
  "(nat \<Rightarrow> nat) \<Rightarrow> (string \<Rightarrow> bool) \<Rightarrow> slice \<Rightarrow> nat list \<Rightarrow> slice \<times> memory \<Rightarrow> slice \<times> memory" where
  "remaining_loop grow keep src [] acc = acc"
| "remaining_loop grow keep src (i # is) (remaining, m) =
     (let user = arrays m (ptr src) ! i
      in if keep user then remaining_loop grow keep src is (append1 grow remaining user m)
         else remaining_loop grow keep src is (remaining, m))"

definition rebuild_users :: "(nat \<Rightarrow> nat) \<Rightarrow> (string \<Rightarrow> bool) \<Rightarrow> process \<Rightarrow> process" where
  "rebuild_users grow keep p =
     (case remaining_loop grow keep (users_mem (tracker p)) [0..<len (users_mem (tracker p))]
             (make_slice 0 (heap p)) of
        (remaining, m) \<Rightarrow> p\<lparr>tracker := (tracker p)\<lparr>users_mem := remaining\<rparr>, heap := m\<rparr>)"

text \<open>
  The deleting operations up to their rebuilding loop: what they return, the call that
  is left to run, and the process after the requests. Everything before the loop works on
  local values; the one evaluation of \<open>c.users\<close> that selects the names (\<open>copy(all,
  c.users)\<close> in \<open>ReduceLoad\<close>, the fallback loop in \<open>DeleteTestUsers\<close>) is taken as one read.
\<close>

definition DeleteUser_begin ::
  "net \<Rightarrow> string \<Rightarrow> process \<Rightarrow> (bool \<times> int) \<times> call \<times> process" where
  "DeleteUser_begin srv username p =
     (if username = [] \<or> \<not> HasPrefix username ''user_'' then ((False, 400), Done, p)
      else
        (case cleanupUsers srv (config_mem (tracker p)) (sent p) [username] of
           ((deleted, failed), lg') \<Rightarrow>
             if length deleted = 1
             then ((True, 200), RebuildBegin (\<lambda>u. u \<noteq> username), p\<lparr>sent := lg'\<rparr>)
             else
               (case failed username of
                  Some code \<Rightarrow> ((False, code), Done, p\<lparr>sent := lg'\<rparr>)
                | None \<Rightarrow> ((False, 0), Done, p\<lparr>sent := lg'\<rparr>))))"

definition ReduceLoad_begin ::
  "net \<Rightarrow> (json \<Rightarrow> string) \<Rightarrow> (nat \<Rightarrow> nat) \<Rightarrow> int \<Rightarrow> process \<Rightarrow> int \<times> call \<times> process" where
  "ReduceLoad_begin srv fmt_v rnd n p =
     (let cfg = config_mem (tracker p);
          selected = selectedUsers rnd n (tracked_list p) in
      case cleanupUsers srv cfg (sent p) selected of
        ((deletedList, failed), lg1) \<Rightarrow>
          (let deletedUsers = int (length deletedList);
               lg2 = snd (cleanupChatMessagesFromUsers srv fmt_v cfg lg1 selected);
               lg3 = snd (cleanupPostsFromUsers srv fmt_v cfg lg2 selected)
           in (deletedUsers, RebuildBegin (\<lambda>user. \<not> found user selected), p\<lparr>sent := lg3\<rparr>)))"

definition DeleteTestUsers_begin ::
  "net \<Rightarrow> (nat \<Rightarrow> nat) \<Rightarrow> int \<Rightarrow> process
     \<Rightarrow> (string list \<times> (string \<rightharpoonup> int)) \<times> call \<times> process" where
  "DeleteTestUsers_begin srv rnd cnt p =
     (if cnt \<le> 0 then (([], Map.empty), Done, p)
      else
        (case client_Do srv (sent p) (dashboard_request (config_mem (tracker p))) of
           (Err, lg1) \<Rightarrow> (([], Map.empty), Done, p\<lparr>sent := lg1\<rparr>)
         | (Resp code body, lg1) \<Rightarrow>
             (case decode_object body of
                None \<Rightarrow> (([], Map.empty), Done, p\<lparr>sent := lg1\<rparr>)
              | Some data \<Rightarrow>
                  (let candidates = dashboard_candidates data;
                       candidates =
                         (if length candidates = 0
                          then candidates @ filter (\<lambda>u. HasPrefix u ''user_'') (tracked_list p)
                          else candidates)
                   in if length candidates = 0 then (([], Map.empty), Done, p\<lparr>sent := lg1\<rparr>)
                      else
                        (case cleanupUsers srv (config_mem (tracker p)) lg1
                                (toDelete rnd cnt candidates) of
                           ((deleted, failed), lg2) \<Rightarrow>
                             ((deleted, failed), RebuildBegin (\<lambda>u. u \<notin> set deleted),
                              p\<lparr>sent := lg2\<rparr>))))))"

text \<open>
  For the proofs. A slice \<open>r\<close> cannot be disturbed through a slice \<open>s\<close> when its array is
  allocated and, should both share the array, \<open>r\<close> ends before the place where an
  \<open>append\<close> to \<open>s\<close> writes. A slice is well formed when its array is allocated and has
  exactly the slice's capacity. \<open>abstract\<close> reads the tracker in memory as the tracker of
  the earlier sections.
\<close>

definition wf_slice :: "memory \<Rightarrow> slice \<Rightarrow> bool" where
  "wf_slice m s \<longleftrightarrow> ptr s < brk m \<and> len s \<le> cap s \<and> length (arrays m (ptr s)) = cap s"

definition wf_process :: "process \<Rightarrow> bool" where
  "wf_process p \<longleftrightarrow> wf_slice (heap p) (users_mem (tracker p))"

definition abstract :: "process \<Rightarrow> Cleanup" where
  "abstract p = \<lparr>config = config_mem (tracker p), users = tracked_list p\<rparr>"

definition untouchable :: "slice \<Rightarrow> memory \<Rightarrow> slice \<Rightarrow> bool" where
  "untouchable r m s \<longleftrightarrow> ptr r < brk m \<and> (ptr r = ptr s \<longrightarrow> len r \<le> len s)"

definition safe :: "slice \<Rightarrow> process \<Rightarrow> bool" where
  "safe r p \<longleftrightarrow> untouchable r (heap p) (users_mem (tracker p))"

section \<open>Chaos transport\<close>

text \<open>
  \<open>chaosTransport.RoundTrip\<close>. The random numbers are parameters: \<open>f1\<close> and \<open>f2\<close> are the two
  \<open>rand.Float64()\<close> draws (in \<open>[0, 1)\<close>), \<open>raw\<close> is the number behind \<open>rand.Intn\<close>. As the
  standard library documents, \<open>rand.Intn(n)\<close> panics when \<open>n <= 0\<close>. \<open>cancel_after\<close> is the
  time in milliseconds after which the request's context is done, if ever: the \<open>select\<close>
  returns the context's error when that comes before the timer. \<open>base\<close> is what the wrapped
  transport returns.
\<close>

record Chaos =
  ErrorRate :: real
  DelayRate :: real
  MaxDelayMs :: int

datatype fault = Panic

definition Intn :: "nat \<Rightarrow> int \<Rightarrow> fault + int" where
  "Intn raw n = (if n \<le> 0 then Inl Panic else Inr (int raw mod n))"

datatype round_trip = ContextError int | Returned int response

definition inject_error :: "Chaos \<Rightarrow> real \<Rightarrow> response \<Rightarrow> response" where
  "inject_error cfg f2 r =
     (case r of
        Err \<Rightarrow> Err
      | Resp code body \<Rightarrow> if f2 < ErrorRate cfg then Resp 500 body else Resp code body)"

definition RoundTrip ::
  "Chaos \<Rightarrow> real \<Rightarrow> nat \<Rightarrow> int option \<Rightarrow> response \<Rightarrow> real \<Rightarrow> fault + round_trip" where
  "RoundTrip cfg f1 raw cancel_after base f2 =
     (if f1 < DelayRate cfg
      then
        (case Intn raw (MaxDelayMs cfg) of
           Inl p \<Rightarrow> Inl p
         | Inr delay \<Rightarrow>
             (case cancel_after of
                Some t \<Rightarrow>
                  if t < delay then Inr (ContextError t)
                  else Inr (Returned delay (inject_error cfg f2 base))
              | None \<Rightarrow> Inr (Returned delay (inject_error cfg f2 base))))
      else Inr (Returned 0 (inject_error cfg f2 base)))"

section \<open>Chat behaviour\<close>

text \<open>
  \<open>ChatBehavior.SendMessage\<close>. The metrics registry holds the counter
  \<open>requests_total{service,method,status}\<close> and the observations of
  \<open>request_duration_seconds{service,method}\<close>. The WebSocket is a handle; every frame
  handed to \<open>WriteMessage\<close> is appended to the list of frames, and whether the write fails
  is the environment's answer \<open>write_fails\<close>. \<open>elapsed\<close> is what \<open>time.Since(start)\<close>
  gives when the deferred observation runs.
\<close>

record ChatBehavior =
  baseURL :: string
  conn :: "nat option"
  token :: string
  username :: string

record Metrics =
  RequestsTotal :: "string \<times> string \<times> string \<Rightarrow> nat"
  RequestDuration :: "string \<times> string \<Rightarrow> real list"

definition Inc :: "string \<times> string \<times> string \<Rightarrow> Metrics \<Rightarrow> Metrics" where
  "Inc labels m = m\<lparr>RequestsTotal := (RequestsTotal m)(labels := RequestsTotal m labels + 1)\<rparr>"

definition Observe :: "string \<times> string \<Rightarrow> real \<Rightarrow> Metrics \<Rightarrow> Metrics" where
  "Observe labels v m = m\<lparr>RequestDuration := (RequestDuration m)(labels := RequestDuration m labels @ [v])\<rparr>"

definition socketIOMsg :: "string \<Rightarrow> string" where
  \<open>socketIOMsg message =
     ''42["message",{"message":"'' @ message @ ''","room":"general","isPrivate":false}]''\<close>

definition SendMessage ::
  "((nat \<times> string) list \<Rightarrow> nat \<times> string \<Rightarrow> bool) \<Rightarrow> real \<Rightarrow> string
     \<Rightarrow> ChatBehavior \<times> Metrics \<times> (nat \<times> string) list
     \<Rightarrow> ChatBehavior \<times> Metrics \<times> (nat \<times> string) list" where
  "SendMessage write_fails elapsed message st =
     (case st of (c, m, frames) \<Rightarrow>
        (case conn c of
           None \<Rightarrow>
             (c, Observe (''chat'', ''send_message'') elapsed
                   (Inc (''chat'', ''send_message'', ''no_connection'') m), frames)
         | Some h \<Rightarrow>
             if write_fails frames (h, socketIOMsg message)
             then (c\<lparr>conn := None\<rparr>,
                   Observe (''chat'', ''send_message'') elapsed
                     (Inc (''chat'', ''send_message'', ''error'') m),
                   frames @ [(h, socketIOMsg message)])
             else (c,
                   Observe (''chat'', ''send_message'') elapsed
                     (Inc (''chat'', ''send_message'', ''200'') m),
                   frames @ [(h, socketIOMsg message)])))"

section \<open>Control plane\<close>

text \<open>
  The web server's mutable state: the current run and the reports. A run's \<open>cancel\<close>
  function is the number of the context it cancels; \<open>cancelled\<close> lists the contexts
  cancelled so far and \<open>background\<close> the \<open>runTest\<close> calls started with \<open>go\<close> that have not
  returned yet, each with its context and request. Times are numbers. What
  \<open>collectMetrics()\<close> and the tracker's \<open>GetTrackedUsers()\<close> return at the moment of the
  call is passed in; the type of the tracked users is left open here.
\<close>

record TestRun =
  Users :: int
  Duration :: string
  Ramp :: string
  Status :: string
  StartTime :: nat
  cancel :: "nat option"

record 'u TestReport =
  ID :: int
  rUsers :: int
  rDuration :: string
  rRamp :: string
  rStartTime :: nat
  EndTime :: nat
  rStatus :: string
  rMetrics :: "(string \<times> json) list"
  TrackedUsers :: 'u

record 'u WebServer =
  currentTest :: "TestRun option"
  reports :: "'u TestReport list"
  cancelled :: "nat list"
  background :: "(nat \<times> TestRun) list"
  next_ctx :: nat

definition NewWebServer :: "'u WebServer" where
  "NewWebServer = \<lparr>currentTest = None, reports = [], cancelled = [], background = [], next_ctx = 0\<rparr>"

definition is_running :: "TestRun option \<Rightarrow> bool" where
  "is_running t = (case t of None \<Rightarrow> False | Some run \<Rightarrow> Status run = ''running'')"

definition call_cancel :: "TestRun option \<Rightarrow> nat list \<Rightarrow> nat list" where
  "call_cancel t cs =
     (case t of
        Some run \<Rightarrow> (case cancel run of Some ctx \<Rightarrow> cs @ [ctx] | None \<Rightarrow> cs)
      | None \<Rightarrow> cs)"

text \<open>
  \<open>handleStart\<close>: the method and the decoded body of the request (\<open>None\<close> when the body
  is not valid JSON), and the time. The result is the HTTP status and the new state.
\<close>

definition handleStart ::
  "string \<Rightarrow> TestRun option \<Rightarrow> nat \<Rightarrow> 'u WebServer \<Rightarrow> int \<times> 'u WebServer" where
  "handleStart method body now ws =
     (if method \<noteq> ''POST'' then (405, ws)
      else
        (case body of
           None \<Rightarrow> (400, ws)
         | Some req \<Rightarrow>
             (let cs = (if is_running (currentTest ws)
                        then call_cancel (currentTest ws) (cancelled ws) else cancelled ws);
                  ctx = next_ctx ws
              in (200,
                  ws\<lparr>currentTest :=
                        Some \<lparr>Users = Users req, Duration = Duration req, Ramp = Ramp req,
                              Status = ''running'', StartTime = now, cancel = Some ctx\<rparr>,
                      cancelled := cs,
                      background := background ws @ [(ctx, req)],
                      next_ctx := Suc ctx\<rparr>))))"

definition handleStop ::
  "string \<Rightarrow> nat \<Rightarrow> (string \<times> json) list \<Rightarrow> 'u \<Rightarrow> 'u WebServer \<Rightarrow> int \<times> 'u WebServer" where
  "handleStop method now metrics tracked ws =
     (if method \<noteq> ''POST'' then (405, ws)
      else
        (case currentTest ws of
           None \<Rightarrow> (200, ws)
         | Some run \<Rightarrow>
             if Status run = ''running''
             then (200,
                   ws\<lparr>cancelled := call_cancel (currentTest ws) (cancelled ws),
                      reports := reports ws @
                        [\<lparr>ID = int (length (reports ws)) + 1, rUsers = Users run,
                          rDuration = Duration run, rRamp = Ramp run,
                          rStartTime = StartTime run, EndTime = now, rStatus = ''stopped'',
                          rMetrics = metrics, TrackedUsers = tracked\<rparr>],
                      currentTest := None\<rparr>)
             else (200, ws)))"

text \<open>
  \<open>handleReports\<close>: the slice that is encoded into the response.
\<close>

definition handleReports :: "'u WebServer \<Rightarrow> 'u TestReport list" where
  "handleReports ws =
     (let reports = reports ws
      in if length reports > 5 then drop (length reports - 5) reports else reports)"

text \<open>The claim's reading of the report query: the last five reports, the newest one first.\<close>

definition newest_first :: "'u TestReport list \<Rightarrow> 'u TestReport list" where
  "newest_first rs = take 5 (rev rs)"

text \<open>
  \<open>runTest(ctx, req)\<close>, started in the background by \<open>handleStart\<close>. \<open>ParseDuration\<close> is
  \<open>time.ParseDuration\<close> of the standard library, a parameter. With an invalid duration
  the current run, if any, is marked \<open>error\<close> and the call returns. Otherwise the
  generator runs (\<open>gen.Run(ctx)\<close> returns when all users are done, the duration is over
  or the context is cancelled); \<open>ws\<close> is the server's state when \<open>runTest\<close> then takes the
  lock, \<open>startTime\<close> and \<open>endTime\<close> are the times around \<open>gen.Run\<close>, and \<open>metrics\<close> and
  \<open>tracked\<close> are what \<open>collectMetrics()\<close> and \<open>gen.GetTrackedUsers()\<close> return there.
\<close>

definition runTest ::
  "(string \<Rightarrow> nat option) \<Rightarrow> nat \<Rightarrow> TestRun \<Rightarrow> nat \<Rightarrow> nat \<Rightarrow> (string \<times> json) list \<Rightarrow> 'u
     \<Rightarrow> 'u WebServer \<Rightarrow> 'u WebServer" where
  "runTest ParseDuration ctx req startTime endTime metrics tracked ws =
     (case ParseDuration (Duration req) of
        None \<Rightarrow>
          ws\<lparr>currentTest := map_option (\<lambda>run. run\<lparr>Status := ''error''\<rparr>) (currentTest ws),
             background := remove1 (ctx, req) (background ws)\<rparr>
      | Some duration \<Rightarrow>
          (let status =
                 (case currentTest ws of
                    Some run \<Rightarrow> if Status run = ''stopped'' then ''stopped'' else ''completed''
                  | None \<Rightarrow> ''completed'')
           in ws\<lparr>reports := reports ws @
                    [\<lparr>ID = int (length (reports ws)) + 1, rUsers = Users req,
                      rDuration = Duration req, rRamp = Ramp req,
                      rStartTime = startTime, EndTime = endTime, rStatus = status,
                      rMetrics = metrics, TrackedUsers = tracked\<rparr>],
                  currentTest := None,
                  background := remove1 (ctx, req) (background ws)\<rparr>))"

section \<open>The process as a whole\<close>

text \<open>
  The control plane and the tracker share one process. An operation is one of the
  tracker's calls or one of the control plane's handlers; a handler holds the server's
  lock and reads the tracker once, with \<open>GetTrackedUsers()\<close>, so it is one step, and a
  report is built with the slice header returned at that moment. \<open>begin_op\<close> takes an
  operation up to the first step of its call on the shared memory.

  The events of the process: \<open>Begin t op\<close> starts an operation in goroutine \<open>t\<close>, \<open>Step t\<close>
  lets the call of goroutine \<open>t\<close> take its next step, and \<open>Whole op\<close> runs an operation from
  start to end with no other event in between. \<open>exec\<close> runs a list of events in order: a
  schedule. The services, the \<open>%v\<close> rendering, the growth policy of \<open>append\<close> and
  \<open>time.ParseDuration\<close> are the same parameters as before.
\<close>

record system =
  web :: "slice WebServer"
  proc :: process
  calls :: "nat \<Rightarrow> call"

datatype op =
    AddUserOp string
  | DeleteUserOp string
  | ReduceLoadOp "nat \<Rightarrow> nat" int
  | DeleteTestUsersOp "nat \<Rightarrow> nat" int
  | StartOp string "TestRun option" nat
  | StopOp string nat "(string \<times> json) list"
  | RunTestOp nat TestRun nat nat "(string \<times> json) list"

fun begin_op ::
  "net \<Rightarrow> (json \<Rightarrow> string) \<Rightarrow> (string \<Rightarrow> nat option) \<Rightarrow> op \<Rightarrow> system \<Rightarrow> call \<times> system" where
  "begin_op srv fmt_v parse (AddUserOp u) sys = (AddScan u, sys)"
| "begin_op srv fmt_v parse (DeleteUserOp u) sys =
     (case DeleteUser_begin srv u (proc sys) of (res, c, p) \<Rightarrow> (c, sys\<lparr>proc := p\<rparr>))"
| "begin_op srv fmt_v parse (ReduceLoadOp rnd n) sys =
     (case ReduceLoad_begin srv fmt_v rnd n (proc sys) of (res, c, p) \<Rightarrow> (c, sys\<lparr>proc := p\<rparr>))"
| "begin_op srv fmt_v parse (DeleteTestUsersOp rnd n) sys =
     (case DeleteTestUsers_begin srv rnd n (proc sys) of (res, c, p) \<Rightarrow> (c, sys\<lparr>proc := p\<rparr>))"
| "begin_op srv fmt_v parse (StartOp method body now) sys =
     (Done, sys\<lparr>web := snd (handleStart method body now (web sys))\<rparr>)"
| "begin_op srv fmt_v parse (StopOp method now metrics) sys =
     (Done,
      sys\<lparr>web := snd (handleStop method now metrics (GetTrackedUsers_mem (proc sys)) (web sys))\<rparr>)"
| "begin_op srv fmt_v parse (RunTestOp ctx req t0 t1 metrics) sys =
     (Done,
      sys\<lparr>web := runTest parse ctx req t0 t1 metrics (GetTrackedUsers_mem (proc sys)) (web sys)\<rparr>)"

datatype event = Whole op | Begin nat op | Step nat

fun step ::
  "net \<Rightarrow> (json \<Rightarrow> string) \<Rightarrow> (nat \<Rightarrow> nat) \<Rightarrow> (string \<Rightarrow> nat option) \<Rightarrow> event \<Rightarrow> system \<Rightarrow> system" where
  "step srv fmt_v grow parse (Whole op) sys =
     (case begin_op srv fmt_v parse op sys of
        (c, sys') \<Rightarrow> sys'\<lparr>proc := finish grow c (proc sys')\<rparr>)"
| "step srv fmt_v grow parse (Begin t op) sys =
     (case begin_op srv fmt_v parse op sys of
        (c, sys') \<Rightarrow> sys'\<lparr>calls := (calls sys')(t := c)\<rparr>)"
| "step srv fmt_v grow parse (Step t) sys =
     (case micro grow (calls sys t) (proc sys) of
        (c, p) \<Rightarrow> sys\<lparr>proc := p, calls := (calls sys)(t := c)\<rparr>)"

definition exec ::
  "net \<Rightarrow> (json \<Rightarrow> string) \<Rightarrow> (nat \<Rightarrow> nat) \<Rightarrow> (string \<Rightarrow> nat option) \<Rightarrow> event list \<Rightarrow> system \<Rightarrow> system" where
  "exec srv fmt_v grow parse evs sys = fold (step srv fmt_v grow parse) evs sys"

definition boot :: "Config \<Rightarrow> system" where
  "boot cfg =
     (case New_mem cfg \<lparr>arrays = (\<lambda>a. []), brk = 0\<rparr> of
        (c, m) \<Rightarrow>
          \<lparr>web = NewWebServer, proc = \<lparr>tracker = c, heap = m, sent = []\<rparr>, calls = (\<lambda>t. Done)\<rparr>)"

text \<open>
  \<open>report_users\<close> is what a reader of a report's \<open>tracked_users\<close> sees. For the proofs: the
  tracker's slice points into allocated memory; a state is \<open>sound\<close> when, in addition, no
  report's slice can be disturbed through the tracker's; and a call is \<open>fresh\<close> when it
  has not loaded anything yet.
\<close>

definition report_users :: "system \<Rightarrow> slice TestReport \<Rightarrow> string list" where
  "report_users sys r = elems (heap (proc sys)) (TrackedUsers r)"

definition allocated :: "process \<Rightarrow> bool" where
  "allocated p \<longleftrightarrow> ptr (users_mem (tracker p)) < brk (heap p)"

definition sound :: "system \<Rightarrow> bool" where
  "sound sys \<longleftrightarrow>
     allocated (proc sys) \<and> (\<forall>r \<in> set (reports (web sys)). safe (TrackedUsers r) (proc sys))"

fun fresh :: "call \<Rightarrow> bool" where
  "fresh (AddScan u) = True"
| "fresh (RebuildBegin keep) = True"
| "fresh Done = True"
| "fresh c = False"

section \<open>Concrete environments for the examples\<close>

text \<open>
  The inputs of the examples: a configuration, services that always give the same
  answer, random draws that are all zero, a growth policy that leaves room for two more
  elements, a context that is cancelled after the first round of a loop, two runs and two
  reports, a chat client without a connection, and a short history of the process.
\<close>

definition example_cfg :: Config where
  "example_cfg = \<lparr>UserService_BaseURL = ''http://user'', ChatService_BaseURL = ''http://chat'',
     PostsService_BaseURL = ''http://posts''\<rparr>"

definition always :: "response \<Rightarrow> net" where
  "always r lg req = r"

definition zero_draws :: "nat \<Rightarrow> nat" where
  "zero_draws i = 0"

definition fmt_plain :: "json \<Rightarrow> string" where
  "fmt_plain j = (case j of JStr s \<Rightarrow> s | _ \<Rightarrow> [])"

text \<open>A user service whose dashboard gives the answer \<open>r\<close> and which deletes whatever it is asked to.\<close>

definition dashboard_answers :: "response \<Rightarrow> net" where
  "dashboard_answers r lg req = (if req = dashboard_request example_cfg then r else Resp 200 None)"

definition cancelled_after_first :: "nat \<Rightarrow> bool" where
  "cancelled_after_first k = (0 < k)"

definition example_ParseDuration :: "string \<Rightarrow> nat option" where
  "example_ParseDuration s = (if s = ''10s'' then Some 10 else None)"

definition run_A :: TestRun where
  "run_A = \<lparr>Users = 5, Duration = ''10s'', Ramp = ''5/s'', Status = [], StartTime = 0, cancel = None\<rparr>"

definition run_B :: TestRun where
  "run_B = \<lparr>Users = 7, Duration = ''10s'', Ramp = ''1/s'', Status = [], StartTime = 0, cancel = None\<rparr>"

definition two_starts :: "string list WebServer" where
  "two_starts = snd (handleStart ''POST'' (Some run_B) 2 (snd (handleStart ''POST'' (Some run_A) 1 NewWebServer)))"

definition report_1 :: "string list TestReport" where
  "report_1 = \<lparr>ID = 1, rUsers = 5, rDuration = ''10s'', rRamp = ''5/s'', rStartTime = 1, EndTime = 11,
      rStatus = ''completed'', rMetrics = [], TrackedUsers = [''user_0'']\<rparr>"

definition report_2 :: "string list TestReport" where
  "report_2 = \<lparr>ID = 2, rUsers = 7, rDuration = ''10s'', rRamp = ''1/s'', rStartTime = 20, EndTime = 30,
      rStatus = ''completed'', rMetrics = [], TrackedUsers = [''user_0'']\<rparr>"

definition no_chat :: ChatBehavior where
  "no_chat = \<lparr>baseURL = ''http://chat'', conn = None, token = ''t'', username = []\<rparr>"

definition no_metrics :: Metrics where
  "no_metrics = \<lparr>RequestsTotal = (\<lambda>labels. 0), RequestDuration = (\<lambda>labels. [])\<rparr>"

definition write_ok :: "(nat \<times> string) list \<Rightarrow> nat \<times> string \<Rightarrow> bool" where
  "write_ok frames frame = False"

definition grow_two :: "nat \<Rightarrow> nat" where
  "grow_two c = 2"

definition history_before :: "op list" where
  "history_before = [AddUserOp ''user_0'', AddUserOp ''user_1'', RunTestOp 0 run_A 1 3 []]"

definition history_later :: "op list" where
  "history_later = [AddUserOp ''user_2'', DeleteUserOp ''user_0'', ReduceLoadOp zero_draws 1]"

definition at_report :: system where
  "at_report = exec (always (Resp 200 None)) fmt_plain grow_two example_ParseDuration
     (map Whole history_before) (boot example_cfg)"

definition after_one :: system where
  "after_one = exec (always (Resp 200 None)) fmt_plain grow_two example_ParseDuration
     [Whole (AddUserOp ''user_2'')] at_report"

definition afterwards :: system where
  "afterwards = exec (always (Resp 200 None)) fmt_plain grow_two example_ParseDuration
     (map Whole history_later) at_report"

text \<open>
  A schedule in which two calls of \<open>AddUser\<close> overlap: goroutine 1 has loaded the header
  for its \<open>append\<close> when \<open>user_1\<close> is added and the run's report is built; then goroutine 1
  goes on.
\<close>

definition overlap_before :: "event list" where
  "overlap_before =
     [Whole (AddUserOp ''user_0''), Begin 1 (AddUserOp ''user_2''), Step 1, Step 1,
      Whole (AddUserOp ''user_1''), Whole (RunTestOp 0 run_A 1 3 [])]"

definition overlap_at_report :: system where
  "overlap_at_report = exec (always (Resp 200 None)) fmt_plain grow_two example_ParseDuration
     overlap_before (boot example_cfg)"

definition overlap_afterwards :: system where
  "overlap_afterwards = exec (always (Resp 200 None)) fmt_plain grow_two example_ParseDuration
     [Step 1] overlap_at_report"

text \<open>
  A schedule in which a call made after the report changes it: goroutine 1 has appended
  \<open>user_1\<close> and not yet stored the header when \<open>user_2\<close> and \<open>user_3\<close> are added and the
  report is built; then goroutine 1 stores its header, of length 2, and \<open>user_4\<close> is added.
\<close>

definition stale_before :: "event list" where
  "stale_before =
     [Whole (AddUserOp ''user_0''), Begin 1 (AddUserOp ''user_1''), Step 1, Step 1, Step 1,
      Whole (AddUserOp ''user_2''), Whole (AddUserOp ''user_3''),
      Whole (RunTestOp 0 run_A 1 3 [])]"

definition stale_at_report :: system where
  "stale_at_report = exec (always (Resp 200 None)) fmt_plain grow_two example_ParseDuration
     stale_before (boot example_cfg)"

definition stale_afterwards :: system where
  "stale_afterwards = exec (always (Resp 200 None)) fmt_plain grow_two example_ParseDuration
     [Step 1, Whole (AddUserOp ''user_4'')] stale_at_report"

definition three_test_users :: response where
  "three_test_users = Resp 200 (Some (JObj [(''users'', JArr [JStr ''user_1'', JStr ''user_2'', JStr ''bob'', JStr ''user_3''])]))"

section \<open>Properties of the tracker\<close>

lemma found_iff: "found name us \<longleftrightarrow> name \<in> set us"
  by (induction us) auto

lemma AddUser_users:
  "users (AddUser u c) = (if u \<in> set (users c) then users c else users c @ [u])"
  by (simp add: AddUser_def found_iff)

lemma filter_removeAll_member:
  "u \<in> A \<Longrightarrow> filter (\<lambda>v. v \<notin> A) (removeAll u ys) = filter (\<lambda>v. v \<notin> A) ys"
  by (induction ys) auto

lemma filter_insert_removeAll:
  "filter (\<lambda>v. v \<notin> insert u A) ys = filter (\<lambda>v. v \<notin> A) (removeAll u ys)"
  by (induction ys) auto

lemma fold_AddUser_users:
  "distinct (users c) \<Longrightarrow>
   users (fold AddUser us c) = users c @ filter (\<lambda>u. u \<notin> set (users c)) (first_seen us)"
proof (induction us arbitrary: c)
  case Nil
  then show ?case by simp
next
  case (Cons u us)
  show ?case
  proof (cases "u \<in> set (users c)")
    case True
    then have eq: "users (AddUser u c) = users c"
      by (simp add: AddUser_users)
    have "filter (\<lambda>v. v \<notin> set (users c)) (removeAll u (first_seen us))
            = filter (\<lambda>v. v \<notin> set (users c)) (first_seen us)"
      using True by (rule filter_removeAll_member)
    with Cons True eq show ?thesis by simp
  next
    case False
    then have eq: "users (AddUser u c) = users c @ [u]"
      by (simp add: AddUser_users)
    have d: "distinct (users (AddUser u c))"
      using Cons.prems False eq by simp
    have "filter (\<lambda>v. v \<notin> set (users c @ [u])) (first_seen us)
            = filter (\<lambda>v. v \<notin> set (users c)) (removeAll u (first_seen us))"
      using filter_insert_removeAll [of u "set (users c)" "first_seen us"] by simp
    with Cons.IH [OF d] False eq show ?thesis by simp
  qed
qed

lemma distinct_first_seen: "distinct (first_seen us)"
  by (induction us) (auto simp: distinct_removeAll)

lemma set_first_seen: "set (first_seen us) = set us"
  by (induction us) auto

text \<open>
  C8. Add is idempotent and keeps insertion order: after any sequence of \<open>AddUser\<close> calls
  on a fresh tracker, the tracked list holds every distinct name of the sequence exactly
  once, in the order of first appearance; and adding a name twice leaves the same state
  as adding it once.
\<close>

theorem C8_AddUser_idempotent_first_seen:
  "GetTrackedUsers (fold AddUser us (New cfg)) = first_seen us
   \<and> distinct (GetTrackedUsers (fold AddUser us (New cfg)))
   \<and> set (GetTrackedUsers (fold AddUser us (New cfg))) = set us
   \<and> AddUser u (AddUser u c) = AddUser u c"
proof -
  have "users (fold AddUser us (New cfg)) = first_seen us"
    using fold_AddUser_users [of "New cfg" us] by (simp add: New_def)
  moreover have "AddUser u (AddUser u c) = AddUser u c"
    by (simp add: AddUser_def found_iff)
  ultimately show ?thesis
    by (simp add: GetTrackedUsers_def distinct_first_seen set_first_seen)
qed

section \<open>Shuffling, deleting, reducing\<close>

lemma mset_swap': "i < length xs \<Longrightarrow> j < length xs \<Longrightarrow> mset (swap i j xs) = mset xs"
  by (simp add: swap_def mset_swap)

lemma length_swap: "length (swap i j xs) = length xs" by (simp add: swap_def)

lemma mset_Shuffle_from: "k < length xs \<Longrightarrow> mset (Shuffle_from rnd k xs) = mset xs"
proof (induction k arbitrary: xs)
  case 0
  then show ?case by simp
next
  case (Suc k)
  have j: "rnd (Suc k) mod Suc (Suc k) < length xs"
    using Suc.prems mod_less_divisor [of "Suc (Suc k)" "rnd (Suc k)"] by linarith
  have "mset (swap (Suc k) (rnd (Suc k) mod Suc (Suc k)) xs) = mset xs"
    using Suc.prems j by (rule mset_swap')
  moreover have "k < length (swap (Suc k) (rnd (Suc k) mod Suc (Suc k)) xs)"
    using Suc.prems by (simp add: length_swap)
  ultimately show ?case using Suc.IH by simp
qed

lemma mset_Shuffle: "mset (Shuffle rnd xs) = mset xs"
  by (cases xs) (simp_all add: Shuffle_def mset_Shuffle_from)

lemma set_Shuffle: "set (Shuffle rnd xs) = set xs"
  using mset_Shuffle [of rnd xs] by (metis set_mset_mset)

lemma length_Shuffle: "length (Shuffle rnd xs) = length xs"
  using mset_Shuffle [of rnd xs] by (metis size_mset)


lemma cleanupUsers_loop_log:
  "snd (cleanupUsers_loop srv cfg us (df, lg)) = lg @ map (delete_request cfg) us"
proof (induction us arbitrary: df lg)
  case Nil
  then show ?case by simp
next
  case (Cons u us)
  obtain d f where df: "df = (d, f)" by (cases df)
  show ?case
    by (cases "srv lg (delete_request cfg u)")
      (simp_all add: df client_Do_def Cons.IH)
qed

lemma cleanupUsers_log:
  "snd (cleanupUsers srv cfg lg us) = lg @ map (delete_request cfg) us"
  by (simp add: cleanupUsers_def cleanupUsers_loop_log)

lemma cleanupUsers_loop_deleted_subset:
  "set (fst (fst (cleanupUsers_loop srv cfg us ((d, f), lg)))) \<subseteq> set d \<union> set us"
proof (induction us arbitrary: d f lg)
  case Nil
  then show ?case by simp
next
  case (Cons u us)
  show ?case
  proof (cases "srv lg (delete_request cfg u)")
    case Err
    then have step: "cleanupUsers_loop srv cfg (u # us) ((d, f), lg)
        = cleanupUsers_loop srv cfg us ((d, f(u \<mapsto> 0)), lg @ [delete_request cfg u])"
      by (simp add: client_Do_def)
    show ?thesis unfolding step by (rule subset_trans [OF Cons.IH]) auto
  next
    case (Resp code body)
    show ?thesis
    proof (cases "code = 200 \<or> code = 204")
      case True
      with Resp have step: "cleanupUsers_loop srv cfg (u # us) ((d, f), lg)
          = cleanupUsers_loop srv cfg us ((d @ [u], f), lg @ [delete_request cfg u])"
        by (simp add: client_Do_def)
      show ?thesis unfolding step by (rule subset_trans [OF Cons.IH]) auto
    next
      case False
      with Resp have step: "cleanupUsers_loop srv cfg (u # us) ((d, f), lg)
          = cleanupUsers_loop srv cfg us ((d, f(u \<mapsto> code)), lg @ [delete_request cfg u])"
        by (simp add: client_Do_def)
      show ?thesis unfolding step by (rule subset_trans [OF Cons.IH]) auto
    qed
  qed
qed

lemma cleanupUsers_deleted_subset:
  "set (fst (fst (cleanupUsers srv cfg lg us))) \<subseteq> set us"
  using cleanupUsers_loop_deleted_subset [of srv cfg us "[]" Map.empty lg]
  by (simp add: cleanupUsers_def)


lemma cascade_loop_log:
  "\<exists>rest. snd (cascade_loop srv fmt_v url us items (k, lg)) = lg @ rest"
proof (induction items arbitrary: k lg)
  case Nil
  then show ?case by simp
next
  case (Cons item items)
  have keep: "\<exists>rest. snd (cascade_loop srv fmt_v url us items (k, lg)) = lg @ rest"
    by (rule Cons.IH)
  have more: "\<exists>rest. snd (cascade_loop srv fmt_v url us items (k', lg @ [r])) = lg @ rest" for k' r
    using Cons.IH [of k' "lg @ [r]"] by auto
  show ?case
    using keep more
    by (simp add: client_Do_def split: option.split json.split response.split)
qed

lemma cleanupChatMessagesFromUsers_log:
  "\<exists>rest. snd (cleanupChatMessagesFromUsers srv fmt_v cfg lg us) = lg @ rest"
proof (cases "srv lg (Req ''GET'' (ChatService_BaseURL cfg @ ''/api/messages''))")
  case Err
  then show ?thesis by (simp add: cleanupChatMessagesFromUsers_def client_Do_def)
next
  case (Resp code body)
  obtain rest where
    "snd (cascade_loop srv fmt_v (ChatService_BaseURL cfg @ ''/api/messages'') us (decode_items body)
        (0, lg @ [Req ''GET'' (ChatService_BaseURL cfg @ ''/api/messages'')]))
      = (lg @ [Req ''GET'' (ChatService_BaseURL cfg @ ''/api/messages'')]) @ rest"
    using cascade_loop_log by blast
  with Resp show ?thesis by (simp add: cleanupChatMessagesFromUsers_def client_Do_def)
qed

lemma cleanupPostsFromUsers_log:
  "\<exists>rest. snd (cleanupPostsFromUsers srv fmt_v cfg lg us) = lg @ rest"
proof (cases "srv lg (Req ''GET'' (PostsService_BaseURL cfg @ ''/api/posts''))")
  case Err
  then show ?thesis by (simp add: cleanupPostsFromUsers_def client_Do_def)
next
  case (Resp code body)
  obtain rest where
    "snd (cascade_loop srv fmt_v (PostsService_BaseURL cfg @ ''/api/posts'') us (decode_items body)
        (0, lg @ [Req ''GET'' (PostsService_BaseURL cfg @ ''/api/posts'')]))
      = (lg @ [Req ''GET'' (PostsService_BaseURL cfg @ ''/api/posts'')]) @ rest"
    using cascade_loop_log by blast
  with Resp show ?thesis by (simp add: cleanupPostsFromUsers_def client_Do_def)
qed

lemma ReduceLoad_parts:
  "fst (ReduceLoad srv fmt_v rnd n c lg)
     = int (length (fst (fst (cleanupUsers srv (config c) lg (selectedUsers rnd n (users c))))))"
  "users (fst (snd (ReduceLoad srv fmt_v rnd n c lg)))
     = filter (\<lambda>user. user \<notin> set (selectedUsers rnd n (users c))) (users c)"
  "config (fst (snd (ReduceLoad srv fmt_v rnd n c lg))) = config c"
  by (simp_all add: ReduceLoad_def Let_def found_iff split: prod.split)

lemma ReduceLoad_log:
  "\<exists>rest. snd (snd (ReduceLoad srv fmt_v rnd n c lg))
     = lg @ map (delete_request (config c)) (selectedUsers rnd n (users c)) @ rest"
proof -
  let ?sel = "selectedUsers rnd n (users c)"
  let ?lg1 = "lg @ map (delete_request (config c)) ?sel"
  obtain r1 where r1: "snd (cleanupChatMessagesFromUsers srv fmt_v (config c) ?lg1 ?sel) = ?lg1 @ r1"
    using cleanupChatMessagesFromUsers_log by blast
  obtain r2 where r2: "snd (cleanupPostsFromUsers srv fmt_v (config c) (?lg1 @ r1) ?sel) = (?lg1 @ r1) @ r2"
    using cleanupPostsFromUsers_log by blast
  obtain d f lg1 where cu: "cleanupUsers srv (config c) lg ?sel = ((d, f), lg1)"
    by (metis surj_pair)
  have lg1: "lg1 = ?lg1"
    using cleanupUsers_log [of srv "config c" lg ?sel] cu by simp
  have "snd (snd (ReduceLoad srv fmt_v rnd n c lg)) = (?lg1 @ r1) @ r2"
    using r1 r2 by (simp add: ReduceLoad_def Let_def cu lg1)
  then show ?thesis by simp
qed

lemma selectedUsers_nonpositive:
  "n \<le> 0 \<Longrightarrow> selectedUsers rnd n us = Shuffle rnd us"
  by (simp add: selectedUsers_def Let_def length_Shuffle)

lemmas eval_defs = ReduceLoad_def selectedUsers_def Shuffle_def swap_def cleanupUsers_def client_Do_def
  always_def zero_draws_def cleanupChatMessagesFromUsers_def cleanupPostsFromUsers_def decode_items_def
  Let_def

lemma length_responses: "length (responses srv cfg lg us) = length us"
  by (induction us arbitrary: lg) simp_all

lemma responses_nth:
  "i < length us \<Longrightarrow>
   responses srv cfg lg us ! i
     = srv (lg @ map (delete_request cfg) (take i us)) (delete_request cfg (us ! i))"
proof (induction us arbitrary: lg i)
  case Nil
  then show ?case by simp
next
  case (Cons u us)
  then show ?case by (cases i) simp_all
qed

lemma cleanupUsers_loop_deleted:
  "fst (fst (cleanupUsers_loop srv cfg us ((d, f), lg))) = d @ acknowledged_names srv cfg lg us"
proof (induction us arbitrary: d f lg)
  case Nil
  then show ?case by (simp add: acknowledged_names_def)
next
  case (Cons u us)
  show ?case
  proof (cases "srv lg (delete_request cfg u)")
    case Err
    then have step: "cleanupUsers_loop srv cfg (u # us) ((d, f), lg)
        = cleanupUsers_loop srv cfg us ((d, f(u \<mapsto> 0)), lg @ [delete_request cfg u])"
      by (simp add: client_Do_def)
    have "acknowledged_names srv cfg lg (u # us)
        = acknowledged_names srv cfg (lg @ [delete_request cfg u]) us"
      using Err by (simp add: acknowledged_names_def acknowledged_def)
    then show ?thesis
      unfolding step by (simp add: Cons.IH)
  next
    case (Resp code body)
    show ?thesis
    proof (cases "code = 200 \<or> code = 204")
      case True
      with Resp have step: "cleanupUsers_loop srv cfg (u # us) ((d, f), lg)
          = cleanupUsers_loop srv cfg us ((d @ [u], f), lg @ [delete_request cfg u])"
        by (simp add: client_Do_def)
      have "acknowledged_names srv cfg lg (u # us)
          = u # acknowledged_names srv cfg (lg @ [delete_request cfg u]) us"
        using Resp True by (simp add: acknowledged_names_def acknowledged_def)
      then show ?thesis
        unfolding step by (simp add: Cons.IH)
    next
      case False
      with Resp have step: "cleanupUsers_loop srv cfg (u # us) ((d, f), lg)
          = cleanupUsers_loop srv cfg us ((d, f(u \<mapsto> code)), lg @ [delete_request cfg u])"
        by (simp add: client_Do_def)
      have "acknowledged_names srv cfg lg (u # us)
          = acknowledged_names srv cfg (lg @ [delete_request cfg u]) us"
        using Resp False by (simp add: acknowledged_names_def acknowledged_def)
      then show ?thesis
        unfolding step by (simp add: Cons.IH)
    qed
  qed
qed

lemma cleanupUsers_deleted:
  "fst (fst (cleanupUsers srv cfg lg us)) = acknowledged_names srv cfg lg us"
  by (simp add: cleanupUsers_def cleanupUsers_loop_deleted)

text \<open>
  C1, as stated: \<open>ReduceLoad(0, ctx)\<close> would delete nothing and leave the tracked list as
  it was. On a tracker holding \<open>user_1\<close>, with a user service that answers 200, the call
  with count 0 sends the DELETE for \<open>user_1\<close>, returns 1 and leaves the tracked list empty.
\<close>

theorem C1_ReduceLoad_zero_counterexample:
  "fst (ReduceLoad (always (Resp 200 None)) fmt_plain zero_draws 0
          \<lparr>config = example_cfg, users = [''user_1'']\<rparr> []) = 1
   \<and> users (fst (snd (ReduceLoad (always (Resp 200 None)) fmt_plain zero_draws 0
          \<lparr>config = example_cfg, users = [''user_1'']\<rparr> []))) = []
   \<and> snd (snd (ReduceLoad (always (Resp 200 None)) fmt_plain zero_draws 0
          \<lparr>config = example_cfg, users = [''user_1'']\<rparr> []))
       = [delete_request example_cfg ''user_1'',
          Req ''GET'' ''http://chat/api/messages'', Req ''GET'' ''http://posts/api/posts'']"
  by (simp add: eval_defs example_cfg_def)

text \<open>
  C1, amended: a count that is not positive selects every tracked username. The selected
  names are a permutation of the tracked list; one DELETE per selected name goes to the
  user service, in the selected order, before anything else is requested; the result is
  the number of selected names whose DELETE the user service answered with status 200 or
  204 (an integer, not a deleted list and a failed map); and none of these acknowledged
  names is tracked afterwards. With an empty tracked list nothing is selected, the result
  is 0 and the list stays empty.
\<close>

theorem C1_ReduceLoad_nonpositive_selects_all:
  assumes "n \<le> 0"
  shows "mset (selectedUsers rnd n (users c)) = mset (users c)
    \<and> (\<exists>rest. snd (snd (ReduceLoad srv fmt_v rnd n c lg))
          = lg @ map (delete_request (config c)) (selectedUsers rnd n (users c)) @ rest)
    \<and> fst (ReduceLoad srv fmt_v rnd n c lg)
          = int (length (acknowledged_names srv (config c) lg (selectedUsers rnd n (users c))))
    \<and> set (acknowledged_names srv (config c) lg (selectedUsers rnd n (users c)))
          \<inter> set (users (fst (snd (ReduceLoad srv fmt_v rnd n c lg)))) = {}
    \<and> (users c = [] \<longrightarrow>
          selectedUsers rnd n (users c) = []
          \<and> fst (ReduceLoad srv fmt_v rnd n c lg) = 0
          \<and> users (fst (snd (ReduceLoad srv fmt_v rnd n c lg))) = [])"
proof -
  let ?sel = "selectedUsers rnd n (users c)"
  have sel: "mset ?sel = mset (users c)"
    using assms by (simp add: selectedUsers_nonpositive mset_Shuffle)
  have res: "fst (ReduceLoad srv fmt_v rnd n c lg)
      = int (length (acknowledged_names srv (config c) lg ?sel))"
    by (simp add: ReduceLoad_parts(1) cleanupUsers_deleted)
  have disj: "set (acknowledged_names srv (config c) lg ?sel)
          \<inter> set (users (fst (snd (ReduceLoad srv fmt_v rnd n c lg)))) = {}"
    using cleanupUsers_deleted_subset [of srv "config c" lg ?sel]
    by (auto simp: ReduceLoad_parts cleanupUsers_deleted)
  have empty: "users c = [] \<longrightarrow>
          ?sel = [] \<and> fst (ReduceLoad srv fmt_v rnd n c lg) = 0
          \<and> users (fst (snd (ReduceLoad srv fmt_v rnd n c lg))) = []"
    using sel by (auto simp: res ReduceLoad_parts(2) acknowledged_names_def)
  show ?thesis
    using sel ReduceLoad_log [of srv fmt_v rnd n c lg] res disj empty by blast
qed

theorem C1_ReduceLoad_nonpositive_witness:
  "(0::int) \<le> 0
   \<and> mset (selectedUsers zero_draws 0 [''user_1'', ''user_2'']) = mset [''user_1'', ''user_2'']
   \<and> acknowledged_names (always (Resp 200 None)) example_cfg []
        (selectedUsers zero_draws 0 [''user_1'', ''user_2'']) = [''user_2'', ''user_1'']
   \<and> fst (ReduceLoad (always (Resp 200 None)) fmt_plain zero_draws 0
          \<lparr>config = example_cfg, users = [''user_1'', ''user_2'']\<rparr> []) = 2
   \<and> users (fst (snd (ReduceLoad (always (Resp 200 None)) fmt_plain zero_draws 0
          \<lparr>config = example_cfg, users = [''user_1'', ''user_2'']\<rparr> []))) = []
   \<and> fst (ReduceLoad (always (Resp 200 None)) fmt_plain zero_draws 0
          \<lparr>config = example_cfg, users = []\<rparr> []) = 0
   \<and> users (fst (snd (ReduceLoad (always (Resp 200 None)) fmt_plain zero_draws 0
          \<lparr>config = example_cfg, users = []\<rparr> []))) = []"
  using C1_ReduceLoad_nonpositive_selects_all
     [of 0 zero_draws "\<lparr>config = example_cfg, users = [''user_1'', ''user_2'']\<rparr>"
       "always (Resp 200 None)" fmt_plain "[]"]
    C1_ReduceLoad_nonpositive_selects_all
     [of 0 zero_draws "\<lparr>config = example_cfg, users = []\<rparr>" "always (Resp 200 None)" fmt_plain "[]"]
  by (simp add: eval_defs acknowledged_names_def acknowledged_def)

text \<open>
  C2, at the failing input: \<open>user_1\<close> is tracked, \<open>ReduceLoad(ctx, 1)\<close> selects it, and the
  user service answers its DELETE with 500. \<open>cleanupUsers\<close> records the failure (status
  500 in its failed map, nothing deleted, result 0), and still the name is gone from the
  tracked list: the loop that rebuilds the list drops every selected name, not every
  deleted one.
\<close>

theorem C2_ReduceLoad_drops_failed_user:
  "fst (ReduceLoad (always (Resp 500 None)) fmt_v rnd 1 \<lparr>config = cfg, users = [''user_1'']\<rparr> []) = 0
   \<and> users (fst (snd (ReduceLoad (always (Resp 500 None)) fmt_v rnd 1
         \<lparr>config = cfg, users = [''user_1'']\<rparr> []))) = []
   \<and> fst (fst (cleanupUsers (always (Resp 500 None)) cfg [] [''user_1''])) = []
   \<and> snd (fst (cleanupUsers (always (Resp 500 None)) cfg [] [''user_1''])) ''user_1'' = Some 500"
  by (simp add: eval_defs)

section \<open>Deleting test users found on the dashboard\<close>

text \<open>
  The sibling paths of \<open>ReduceLoad\<close>: \<open>DeleteTestUsers\<close> and \<open>DeleteUser\<close> keep a tracked
  name whose deletion was not acknowledged, \<open>ReduceLoad\<close> drops every selected name; and
  \<open>DeleteTestUsers\<close> does nothing for a count that is not positive.
\<close>

lemma DeleteTestUsers_nonpositive:
  "cnt \<le> 0 \<Longrightarrow> DeleteTestUsers srv rnd cnt c lg = (([], Map.empty), c, lg)"
  by (simp add: DeleteTestUsers_def)

lemma DeleteTestUsers_keeps_unacknowledged:
  "u \<in> set (users c) \<Longrightarrow> u \<notin> set (fst (fst (DeleteTestUsers srv rnd cnt c lg))) \<Longrightarrow>
   u \<in> set (users (fst (snd (DeleteTestUsers srv rnd cnt c lg))))"
  by (auto simp: DeleteTestUsers_def Let_def split: prod.splits response.splits option.splits if_splits)

lemma DeleteUser_keeps_unacknowledged:
  "u \<in> set (users c) \<Longrightarrow> \<not> fst (fst (DeleteUser srv v c lg)) \<Longrightarrow>
   u \<in> set (users (fst (snd (DeleteUser srv v c lg))))"
  by (auto simp: DeleteUser_def split: prod.splits option.splits if_splits)

lemma ReduceLoad_drops_selected:
  "set (users (fst (snd (ReduceLoad srv fmt_v rnd n c lg))))
     = set (users c) - set (selectedUsers rnd n (users c))"
  by (auto simp: ReduceLoad_parts)

lemma set_uniq_loop: "set (uniq_loop cs acc) = set acc \<union> set cs"
  by (induction cs arbitrary: acc) auto

lemma distinct_uniq_loop: "distinct acc \<Longrightarrow> distinct (uniq_loop cs acc)"
  by (induction cs arbitrary: acc) auto

lemma set_toDelete: "set (toDelete rnd cnt cs) \<subseteq> set cs"
proof -
  have "set (take (nat cnt) (Shuffle rnd (uniq_loop cs []))) \<subseteq> set (Shuffle rnd (uniq_loop cs []))"
    by (rule set_take_subset)
  then show ?thesis
    by (auto simp: toDelete_def Let_def set_Shuffle set_uniq_loop)
qed

lemma distinct_Shuffle: "distinct (Shuffle rnd xs) = distinct xs"
  using mset_Shuffle [of rnd xs] by (metis mset_eq_imp_distinct_iff)

lemma distinct_toDelete: "distinct (toDelete rnd cnt cs)"
  by (simp add: toDelete_def Let_def distinct_Shuffle distinct_uniq_loop)

lemma length_toDelete:
  "0 < cnt \<Longrightarrow> length (toDelete rnd cnt cs) = min (nat cnt) (card (set cs))"
proof -
  have "length (uniq_loop cs []) = card (set cs)"
    using distinct_card [of "uniq_loop cs []"] by (simp add: distinct_uniq_loop set_uniq_loop)
  then show "0 < cnt \<Longrightarrow> length (toDelete rnd cnt cs) = min (nat cnt) (card (set cs))"
    by (auto simp: toDelete_def Let_def length_Shuffle)
qed

lemma DeleteTestUsers_fetch_error:
  "0 < cnt \<Longrightarrow> srv lg (dashboard_request (config c)) = Err \<Longrightarrow>
   DeleteTestUsers srv rnd cnt c lg = (([], Map.empty), c, lg @ [dashboard_request (config c)])"
  by (simp add: DeleteTestUsers_def client_Do_def)

lemma DeleteTestUsers_decode_error:
  "0 < cnt \<Longrightarrow> srv lg (dashboard_request (config c)) = Resp code body \<Longrightarrow> decode_object body = None \<Longrightarrow>
   DeleteTestUsers srv rnd cnt c lg = (([], Map.empty), c, lg @ [dashboard_request (config c)])"
  by (simp add: DeleteTestUsers_def client_Do_def)

lemma toDelete_Nil: "toDelete rnd cnt [] = []"
  by (simp add: toDelete_def Shuffle_def)

lemma DeleteTestUsers_fallback:
  assumes "0 < cnt" and "srv lg (dashboard_request (config c)) = Resp code body"
    and "decode_object body = Some data" and "dashboard_candidates data = []"
  shows "DeleteTestUsers srv rnd cnt c lg =
     (fst (cleanupUsers srv (config c) (lg @ [dashboard_request (config c)])
             (toDelete rnd cnt (fallback_candidates c))),
      c\<lparr>users := filter (\<lambda>u. u \<notin> set (fst (fst (cleanupUsers srv (config c)
             (lg @ [dashboard_request (config c)]) (toDelete rnd cnt (fallback_candidates c)))))) (users c)\<rparr>,
      lg @ [dashboard_request (config c)]
         @ map (delete_request (config c)) (toDelete rnd cnt (fallback_candidates c)))"
proof (cases "fallback_candidates c = []")
  case True
  then show ?thesis
    using assms
    by (simp add: DeleteTestUsers_def client_Do_def toDelete_Nil cleanupUsers_def)
next
  case False
  let ?lg1 = "lg @ [dashboard_request (config c)]"
  let ?sel = "toDelete rnd cnt (fallback_candidates c)"
  obtain d f lg2 where cu: "cleanupUsers srv (config c) ?lg1 ?sel = ((d, f), lg2)"
    by (metis surj_pair)
  have lg2: "lg2 = ?lg1 @ map (delete_request (config c)) ?sel"
    using cleanupUsers_log [of srv "config c" ?lg1 ?sel] cu by simp
  show ?thesis
    using assms False cu lg2
    by (simp add: DeleteTestUsers_def client_Do_def )
qed

text \<open>
  C4, as stated: a failed dashboard query would make \<open>DeleteTestUsers\<close> fall back to the
  tracked list. With \<open>user_1\<close> tracked, a count of 1 and a user service that would delete
  it, a transport error of the dashboard query, and likewise a body that is not JSON,
  end the call with nothing deleted, nothing failed, no DELETE sent and the tracked list
  as it was.
\<close>

theorem C4_dashboard_failure_counterexample:
  "DeleteTestUsers (dashboard_answers Err) zero_draws 1
       \<lparr>config = example_cfg, users = [''user_1'']\<rparr> []
     = (([], Map.empty), \<lparr>config = example_cfg, users = [''user_1'']\<rparr>,
        [dashboard_request example_cfg])
   \<and> DeleteTestUsers (dashboard_answers (Resp 200 None)) zero_draws 1
       \<lparr>config = example_cfg, users = [''user_1'']\<rparr> []
     = (([], Map.empty), \<lparr>config = example_cfg, users = [''user_1'']\<rparr>,
        [dashboard_request example_cfg])"
  by (simp add: DeleteTestUsers_def client_Do_def dashboard_answers_def decode_object_def)

text \<open>
  C4, amended: for a positive count, a dashboard query that fails (transport error, or a
  body that does not decode into an object) ends the call at once with the empty result,
  the tracker unchanged and no DELETE sent. A dashboard answer that decodes and yields no
  candidate with the prefix \<open>user_\<close> makes the tracked list the source: the names to delete
  are the first \<open>count\<close> of the shuffled, duplicate-free tracked names with the prefix, one
  DELETE goes out for each, and the names the service acknowledged leave the tracked list.
\<close>

theorem C4_DeleteTestUsers_fallback_only_when_decoded:
  assumes "0 < cnt"
  shows
    "(srv lg (dashboard_request (config c)) = Err
        \<or> (\<exists>code body. srv lg (dashboard_request (config c)) = Resp code body
              \<and> decode_object body = None)
      \<longrightarrow> DeleteTestUsers srv rnd cnt c lg
            = (([], Map.empty), c, lg @ [dashboard_request (config c)]))
     \<and> (\<forall>code body data.
          srv lg (dashboard_request (config c)) = Resp code body
            \<and> decode_object body = Some data \<and> dashboard_candidates data = []
          \<longrightarrow> DeleteTestUsers srv rnd cnt c lg =
               (fst (cleanupUsers srv (config c) (lg @ [dashboard_request (config c)])
                       (toDelete rnd cnt (fallback_candidates c))),
                c\<lparr>users := filter (\<lambda>u. u \<notin> set (fst (fst (cleanupUsers srv (config c)
                       (lg @ [dashboard_request (config c)])
                       (toDelete rnd cnt (fallback_candidates c)))))) (users c)\<rparr>,
                lg @ [dashboard_request (config c)]
                   @ map (delete_request (config c)) (toDelete rnd cnt (fallback_candidates c)))
              \<and> set (toDelete rnd cnt (fallback_candidates c))
                    \<subseteq> {u \<in> set (users c). HasPrefix u ''user_''}
              \<and> distinct (toDelete rnd cnt (fallback_candidates c))
              \<and> length (toDelete rnd cnt (fallback_candidates c))
                    = min (nat cnt) (card {u \<in> set (users c). HasPrefix u ''user_''}))"
proof -
  have sel: "set (fallback_candidates c) = {u \<in> set (users c). HasPrefix u ''user_''}"
    by (auto simp: fallback_candidates_def)
  have sub: "set (toDelete rnd cnt (fallback_candidates c))
        \<subseteq> {u \<in> set (users c). HasPrefix u ''user_''}"
    using set_toDelete [of rnd cnt "fallback_candidates c"] sel by simp
  have len: "length (toDelete rnd cnt (fallback_candidates c))
        = min (nat cnt) (card {u \<in> set (users c). HasPrefix u ''user_''})"
    using length_toDelete [OF assms, of rnd "fallback_candidates c"] sel by simp
  show ?thesis
    using DeleteTestUsers_fetch_error [OF assms, of srv lg c rnd]
      DeleteTestUsers_decode_error [OF assms, of srv lg c _ _ rnd]
      DeleteTestUsers_fallback [OF assms, of srv lg c _ _ _ rnd]
      sub len distinct_toDelete [of rnd cnt "fallback_candidates c"]
    by blast
qed

theorem C4_DeleteTestUsers_fallback_witness:
  "(0::int) < 1
   \<and> dashboard_answers Err [] (dashboard_request example_cfg) = Err
   \<and> DeleteTestUsers (dashboard_answers Err) zero_draws 1
         \<lparr>config = example_cfg, users = [''user_1'', ''user_2'']\<rparr> []
       = (([], Map.empty), \<lparr>config = example_cfg, users = [''user_1'', ''user_2'']\<rparr>,
          [dashboard_request example_cfg])
   \<and> decode_object (Some (JObj [(''users'', JArr [JStr ''bob''])]))
       = Some [(''users'', JArr [JStr ''bob''])]
   \<and> dashboard_candidates [(''users'', JArr [JStr ''bob''])] = []
   \<and> toDelete zero_draws 1 (fallback_candidates \<lparr>config = example_cfg, users = [''user_1'', ''user_2'']\<rparr>)
       = [''user_2'']
   \<and> fst (fst (DeleteTestUsers
          (dashboard_answers (Resp 200 (Some (JObj [(''users'', JArr [JStr ''bob''])]))))
          zero_draws 1 \<lparr>config = example_cfg, users = [''user_1'', ''user_2'']\<rparr> [])) = [''user_2'']
   \<and> users (fst (snd (DeleteTestUsers
          (dashboard_answers (Resp 200 (Some (JObj [(''users'', JArr [JStr ''bob''])]))))
          zero_draws 1 \<lparr>config = example_cfg, users = [''user_1'', ''user_2'']\<rparr> []))) = [''user_1'']
   \<and> snd (snd (DeleteTestUsers
          (dashboard_answers (Resp 200 (Some (JObj [(''users'', JArr [JStr ''bob''])]))))
          zero_draws 1 \<lparr>config = example_cfg, users = [''user_1'', ''user_2'']\<rparr> []))
       = [dashboard_request example_cfg, delete_request example_cfg ''user_2'']"
  using C4_DeleteTestUsers_fallback_only_when_decoded
     [of 1 "dashboard_answers Err" "[]"
         "\<lparr>config = example_cfg, users = [''user_1'', ''user_2'']\<rparr>" zero_draws]
    C4_DeleteTestUsers_fallback_only_when_decoded
     [of 1 "dashboard_answers (Resp 200 (Some (JObj [(''users'', JArr [JStr ''bob''])])))" "[]"
         "\<lparr>config = example_cfg, users = [''user_1'', ''user_2'']\<rparr>" zero_draws]
  by (simp add: eval_defs DeleteTestUsers_def dashboard_answers_def decode_object_def
        dashboard_candidates_def lookup_def HasPrefix_def toDelete_def fallback_candidates_def
        delete_request_def dashboard_request_def)

section \<open>The concurrent launch loop\<close>

lemma launch_loop_all: "launch_loop done k us = us"
  by (induction us arbitrary: k) (simp_all add: select_ctx_Done_def)

lemma DeleteRandomTestUsersConcurrent_launches_all:
  "fst (DeleteRandomTestUsersConcurrent_launches srv rnd done cnt concurrency c lg)
     = fst (DeleteRandomTestUsersConcurrent_launches srv rnd (\<lambda>k. False) cnt concurrency c lg)"
  by (simp add: DeleteRandomTestUsersConcurrent_launches_def Let_def launch_loop_all
        split: prod.split response.split option.split)

text \<open>
  C3, at the failing input: the dashboard lists \<open>user_1\<close>, \<open>user_2\<close>, \<open>bob\<close> and \<open>user_3\<close>,
  count and concurrency are 10, and the context is cancelled after the first task has
  been started (rounds 1 and 2 of the loop find \<open>ctx.Done()\<close> closed). The loop still
  starts a deletion task for each of the three test users.
\<close>

theorem C3_launch_loop_ignores_cancellation:
  "DeleteRandomTestUsersConcurrent_launches (dashboard_answers three_test_users) zero_draws
       cancelled_after_first 10 10 \<lparr>config = example_cfg, users = []\<rparr> []
     = ([''user_2'', ''user_3'', ''user_1''], [dashboard_request example_cfg])
   \<and> cancelled_after_first 1 \<and> cancelled_after_first 2"
  by (simp add: DeleteRandomTestUsersConcurrent_launches_def three_test_users_def dashboard_answers_def
        client_Do_def decode_object_def dashboard_candidates_def lookup_def HasPrefix_def toDelete_def
        Shuffle_def swap_def zero_draws_def select_ctx_Done_def cancelled_after_first_def Let_def)

section \<open>The delay branch of the chaos transport\<close>

lemma RoundTrip_positive_MaxDelayMs:
  assumes "0 < MaxDelayMs cfg"
  shows "\<exists>r. RoundTrip cfg f1 raw cancel_after base f2 = Inr r"
    and "RoundTrip cfg f1 raw cancel_after base f2 = Inr (Returned d resp) \<Longrightarrow> 0 \<le> d \<and> d < MaxDelayMs cfg"
  using assms by (auto simp: RoundTrip_def Intn_def split: option.splits if_splits)

text \<open>
  C5, at the failing input: \<open>delay_rate = 1\<close> and \<open>max_delay_ms = 0\<close>, both inside the
  ranges of the claim. Whatever \<open>rand.Float64()\<close> draws is below 1 (here one half), the
  delay branch is entered, and \<open>rand.Intn(0)\<close> panics.
\<close>

theorem C5_RoundTrip_panics_on_zero_MaxDelayMs:
  "RoundTrip \<lparr>ErrorRate = 0, DelayRate = 1, MaxDelayMs = 0\<rparr> (1/2) raw cancel_after base f2 = Inl Panic"
  by (simp add: RoundTrip_def Intn_def)

section \<open>Reports and runs of the control plane\<close>

text \<open>
  C7, as stated: the report query would list the newest report first. With two reports,
  appended in the order 1, 2, \<open>handleReports\<close> answers 1, 2: the newest one is last.
\<close>

theorem C7_newest_first_counterexample:
  "handleReports (NewWebServer\<lparr>reports := [report_1, report_2]\<rparr>) = [report_1, report_2]
   \<and> newest_first [report_1, report_2] = [report_2, report_1]
   \<and> handleReports (NewWebServer\<lparr>reports := [report_1, report_2]\<rparr>) \<noteq> newest_first [report_1, report_2]"
  by (simp add: handleReports_def newest_first_def NewWebServer_def report_1_def report_2_def)

text \<open>
  C7, amended: the report query returns the last five reports (all of them when there
  are at most five) in the order in which they were appended, the newest one last: the
  answer has \<open>min 5 n\<close> entries and is the tail of the reports list.
\<close>

theorem C7_handleReports_last_five_in_order:
  "length (handleReports ws) = min 5 (length (reports ws))
   \<and> reports ws = take (length (reports ws) - 5) (reports ws) @ handleReports ws"
  by (simp add: handleReports_def Let_def)

text \<open>
  C10. Once \<open>time.ParseDuration\<close> has accepted the duration, \<open>runTest\<close> ends by appending
  one report (id: number of reports so far plus one; users, duration and ramp of its own
  request; status \<open>completed\<close> or \<open>stopped\<close>) and by setting the current run to nil,
  whatever the current run is at that moment. The witness is the case of a second start:
  run A is started, run B replaces it (A's context is cancelled), A's \<open>runTest\<close> returns;
  the current run is then nil although B's \<open>runTest\<close> is still in the background.
\<close>

theorem C10_runTest_appends_report_and_clears_current:
  assumes "ParseDuration (Duration req) = Some d"
  shows "currentTest (runTest ParseDuration ctx req startTime endTime metrics tracked ws) = None
     \<and> reports (runTest ParseDuration ctx req startTime endTime metrics tracked ws)
         = reports ws @ [last (reports (runTest ParseDuration ctx req startTime endTime metrics tracked ws))]
     \<and> ID (last (reports (runTest ParseDuration ctx req startTime endTime metrics tracked ws)))
         = int (length (reports ws)) + 1
     \<and> rUsers (last (reports (runTest ParseDuration ctx req startTime endTime metrics tracked ws)))
         = Users req
     \<and> rDuration (last (reports (runTest ParseDuration ctx req startTime endTime metrics tracked ws)))
         = Duration req
     \<and> rRamp (last (reports (runTest ParseDuration ctx req startTime endTime metrics tracked ws)))
         = Ramp req
     \<and> TrackedUsers (last (reports (runTest ParseDuration ctx req startTime endTime metrics tracked ws)))
         = tracked
     \<and> rStatus (last (reports (runTest ParseDuration ctx req startTime endTime metrics tracked ws)))
         \<in> {''completed'', ''stopped''}"
  using assms by (simp add: runTest_def Let_def split: option.split)

theorem C10_runTest_second_start_witness:
  "example_ParseDuration (Duration run_A) = Some 10
   \<and> map_option Users (currentTest two_starts) = Some 7
   \<and> is_running (currentTest two_starts)
   \<and> cancelled two_starts = [0]
   \<and> background two_starts = [(0, run_A), (1, run_B)]
   \<and> currentTest (runTest example_ParseDuration 0 run_A 1 3 [] [''user_0''] two_starts) = None
   \<and> background (runTest example_ParseDuration 0 run_A 1 3 [] [''user_0''] two_starts) = [(1, run_B)]
   \<and> map rUsers (reports (runTest example_ParseDuration 0 run_A 1 3 [] [''user_0''] two_starts)) = [5]
   \<and> map rStatus (reports (runTest example_ParseDuration 0 run_A 1 3 [] [''user_0''] two_starts)) = [''completed'']"
  using C10_runTest_appends_report_and_clears_current [of example_ParseDuration run_A 10 0 1 3 "[]" "[''user_0'']" two_starts]
  by (simp add: example_ParseDuration_def run_A_def run_B_def two_starts_def handleStart_def
        NewWebServer_def is_running_def call_cancel_def runTest_def Let_def)


section \<open>Sending a chat message without a connection\<close>

text \<open>
  C9. When \<open>c.conn\<close> is nil, \<open>SendMessage\<close> increments
  \<open>requests_total{chat,send_message,no_connection}\<close> by one and no other series of that
  counter, writes no frame to any WebSocket, leaves the connection field nil (it does not
  dial), and returns after the deferred duration observation.
\<close>

theorem C9_SendMessage_without_connection:
  assumes "conn c = None"
  shows "SendMessage write_fails elapsed message (c, m, frames)
           = (c, Observe (''chat'', ''send_message'') elapsed
                   (Inc (''chat'', ''send_message'', ''no_connection'') m), frames)
     \<and> RequestsTotal (fst (snd (SendMessage write_fails elapsed message (c, m, frames))))
           (''chat'', ''send_message'', ''no_connection'')
         = RequestsTotal m (''chat'', ''send_message'', ''no_connection'') + 1
     \<and> (\<forall>labels. labels \<noteq> (''chat'', ''send_message'', ''no_connection'') \<longrightarrow>
           RequestsTotal (fst (snd (SendMessage write_fails elapsed message (c, m, frames)))) labels
             = RequestsTotal m labels)
     \<and> snd (snd (SendMessage write_fails elapsed message (c, m, frames))) = frames
     \<and> conn (fst (SendMessage write_fails elapsed message (c, m, frames))) = None"
  using assms by (simp add: SendMessage_def Inc_def Observe_def)

theorem C9_SendMessage_without_connection_witness:
  "conn no_chat = None
   \<and> RequestsTotal (fst (snd (SendMessage write_ok 0 ''hello'' (no_chat, no_metrics, []))))
        (''chat'', ''send_message'', ''no_connection'') = 1
   \<and> RequestsTotal (fst (snd (SendMessage write_ok 0 ''hello'' (no_chat, no_metrics, []))))
        (''chat'', ''send_message'', ''200'') = 0
   \<and> snd (snd (SendMessage write_ok 0 ''hello'' (no_chat, no_metrics, []))) = []
   \<and> fst (SendMessage write_ok 0 ''hello'' (no_chat, no_metrics, [])) = no_chat"
proof -
  have h: "conn no_chat = None"
    by (simp add: no_chat_def)
  show ?thesis
    using C9_SendMessage_without_connection [OF h, of write_ok 0 "''hello''" no_metrics "[]"] h
    by (simp add: no_metrics_def Inc_def Observe_def)
qed

section \<open>Reports and the tracker's backing array\<close>

lemma append1_frame:
  assumes "untouchable r m s" and "append1 grow s x m = (s', m')"
  shows "elems m' r = elems m r" and "untouchable r m' s'" and "brk m \<le> brk m'"
  using assms
  by (auto simp: append1_def untouchable_def elems_def split: if_splits)

lemma append1_fresh_frame:
  assumes "ptr r < b" and "b \<le> ptr s" and "b \<le> brk m" and "append1 grow s x m = (s', m')"
  shows "elems m' r = elems m r" and "b \<le> ptr s'" and "b \<le> brk m'"
  using assms
  by (auto simp: append1_def elems_def split: if_splits)

lemma remaining_loop_frame:
  assumes "ptr r < b" and "b \<le> ptr s" and "b \<le> brk m"
    and "remaining_loop grow keep src is (s, m) = (s', m')"
  shows "elems m' r = elems m r \<and> b \<le> ptr s' \<and> b \<le> brk m'"
  using assms
proof (induction "is" arbitrary: s m)
  case Nil
  then show ?case by simp
next
  case (Cons i "is")
  show ?case
  proof (cases "keep (arrays m (ptr src) ! i)")
    case True
    obtain s1 m1 where a: "append1 grow s (arrays m (ptr src) ! i) m = (s1, m1)"
      by (metis surj_pair)
    have step: "remaining_loop grow keep src is (s1, m1) = (s', m')"
      using Cons.prems(4) True a by simp
    have f: "elems m1 r = elems m r" "b \<le> ptr s1" "b \<le> brk m1"
      using append1_fresh_frame [OF Cons.prems(1-3) a] by simp_all
    show ?thesis
      using Cons.IH [OF Cons.prems(1) f(2) f(3) step] f(1) by simp
  next
    case False
    then have "remaining_loop grow keep src is (s, m) = (s', m')"
      using Cons.prems(4) by simp
    then show ?thesis
      using Cons.IH [OF Cons.prems(1-3)] by simp
  qed
qed

lemma rebuild_users_frame:
  assumes "safe r p"
  shows "elems (heap (rebuild_users grow keep p)) r = elems (heap p) r"
    and "safe r (rebuild_users grow keep p)"
proof -
  let ?b = "brk (heap p)"
  obtain s0 m0 where mk: "make_slice 0 (heap p) = (s0, m0)"
    by (metis surj_pair)
  obtain s' m' where lp: "remaining_loop grow keep (users_mem (tracker p))
       [0..<len (users_mem (tracker p))] (s0, m0) = (s', m')"
    by (metis surj_pair)
  have r: "ptr r < ?b"
    using assms by (simp add: safe_def untouchable_def)
  have s0: "?b \<le> ptr s0" "?b \<le> brk m0" "elems m0 r = elems (heap p) r"
    using mk r by (auto simp: make_slice_def elems_def)
  have fr: "elems m' r = elems m0 r \<and> ?b \<le> ptr s' \<and> ?b \<le> brk m'"
    using remaining_loop_frame [OF r s0(1) s0(2) lp] .
  have res: "rebuild_users grow keep p = p\<lparr>tracker := (tracker p)\<lparr>users_mem := s'\<rparr>, heap := m'\<rparr>"
    by (simp add: rebuild_users_def mk lp)
  show "elems (heap (rebuild_users grow keep p)) r = elems (heap p) r"
    using fr s0(3) by (simp add: res)
  show "safe r (rebuild_users grow keep p)"
    using fr r by (simp add: res safe_def untouchable_def)
qed

lemma append1_alloc:
  "ptr s < brk m \<Longrightarrow> append1 grow s x m = (s', m') \<Longrightarrow> ptr s' < brk m'"
  by (auto simp: append1_def split: if_splits)

lemma remaining_loop_alloc:
  "ptr s < brk m \<Longrightarrow> remaining_loop grow keep src is (s, m) = (s', m') \<Longrightarrow> ptr s' < brk m'"
proof (induction "is" arbitrary: s m)
  case Nil
  then show ?case by simp
next
  case (Cons i "is")
  show ?case
  proof (cases "keep (arrays m (ptr src) ! i)")
    case True
    obtain s1 m1 where a: "append1 grow s (arrays m (ptr src) ! i) m = (s1, m1)"
      by (metis surj_pair)
    have "remaining_loop grow keep src is (s1, m1) = (s', m')"
      using Cons.prems(2) True a by simp
    then show ?thesis
      using Cons.IH [OF append1_alloc [OF Cons.prems(1) a]] by simp
  next
    case False
    then have "remaining_loop grow keep src is (s, m) = (s', m')"
      using Cons.prems(2) by simp
    then show ?thesis
      using Cons.IH [OF Cons.prems(1)] by simp
  qed
qed

lemma rebuild_users_alloc: "allocated (rebuild_users grow keep p)"
proof -
  obtain s0 m0 where mk: "make_slice 0 (heap p) = (s0, m0)"
    by (metis surj_pair)
  obtain s' m' where lp: "remaining_loop grow keep (users_mem (tracker p))
       [0..<len (users_mem (tracker p))] (s0, m0) = (s', m')"
    by (metis surj_pair)
  have "ptr s0 < brk m0"
    using mk by (auto simp: make_slice_def)
  then have "ptr s' < brk m'"
    using lp by (rule remaining_loop_alloc)
  then show ?thesis
    by (simp add: rebuild_users_def mk lp allocated_def)
qed

declare finish.simps [simp del]

lemma finish_Done: "finish grow Done p = p"
  by (simp add: finish.simps)

lemma finish_next:
  "\<not> finished c \<Longrightarrow> finish grow c p = (case micro grow c p of (c', p') \<Rightarrow> finish grow c' p')"
  by (subst finish.simps) simp

lemma finish_AddStore:
  "finish grow (AddStore s) p = p\<lparr>tracker := (tracker p)\<lparr>users_mem := s\<rparr>\<rparr>"
  by (simp add: finish_next finish_Done)

lemma finish_AddAppend:
  "finish grow (AddAppend u h) p =
     (case append1 grow h u (heap p) of
        (s, m) \<Rightarrow> p\<lparr>tracker := (tracker p)\<lparr>users_mem := s\<rparr>, heap := m\<rparr>)"
  by (simp add: finish_next finish_AddStore split: prod.split)

lemma finish_AddScan:
  "finish grow (AddScan u) p =
     (if found u (tracked_list p) then p
      else
        (case append1 grow (users_mem (tracker p)) u (heap p) of
           (s, m) \<Rightarrow> p\<lparr>tracker := (tracker p)\<lparr>users_mem := s\<rparr>, heap := m\<rparr>))"
  by (simp add: finish_next [of "AddScan u"] finish_next [of "AddLoad u"] finish_AddAppend finish_Done)

lemma finish_Rebuild:
  "finish grow (Rebuild keep src is remaining) p =
     (case remaining_loop grow keep src is (remaining, heap p) of
        (r, m) \<Rightarrow> p\<lparr>tracker := (tracker p)\<lparr>users_mem := r\<rparr>, heap := m\<rparr>)"
proof (induction "is" arbitrary: remaining p)
  case Nil
  show ?case
    by (simp add: finish_next finish_Done)
next
  case (Cons i "is")
  show ?case
  proof (cases "keep (arrays (heap p) (ptr src) ! i)")
    case True
    obtain s m where a: "append1 grow remaining (arrays (heap p) (ptr src) ! i) (heap p) = (s, m)"
      by (metis surj_pair)
    have "finish grow (Rebuild keep src (i # is) remaining) p
        = finish grow (Rebuild keep src is s) (p\<lparr>heap := m\<rparr>)"
      using True a by (simp add: finish_next [of "Rebuild keep src (i # is) remaining"])
    then show ?thesis
      using True a Cons.IH [of s "p\<lparr>heap := m\<rparr>"] by (simp split: prod.split)
  next
    case False
    have "finish grow (Rebuild keep src (i # is) remaining) p
        = finish grow (Rebuild keep src is remaining) p"
      using False by (simp add: finish_next [of "Rebuild keep src (i # is) remaining"])
    then show ?thesis
      using False Cons.IH [of remaining p] by simp
  qed
qed

lemma finish_RebuildBegin: "finish grow (RebuildBegin keep) p = rebuild_users grow keep p"
  by (simp add: finish_next [of "RebuildBegin keep"] finish_Rebuild rebuild_users_def
        split: prod.split)

lemma finish_fresh_frame:
  assumes "fresh c" and "safe r p"
  shows "elems (heap (finish grow c p)) r = elems (heap p) r"
    and "safe r (finish grow c p)"
proof -
  have "elems (heap (finish grow c p)) r = elems (heap p) r \<and> safe r (finish grow c p)"
  proof (cases c)
    case (AddScan u)
    obtain s m where a: "append1 grow (users_mem (tracker p)) u (heap p) = (s, m)"
      by (metis surj_pair)
    have f: "elems m r = elems (heap p) r" "untouchable r m s"
      using append1_frame [OF _ a, of r] assms(2) by (simp_all add: safe_def)
    show ?thesis
      using f assms(2) by (simp add: AddScan finish_AddScan a safe_def)
  next
    case (RebuildBegin keep)
    then show ?thesis
      using rebuild_users_frame [OF assms(2), of grow keep] by (simp add: finish_RebuildBegin)
  next
    case Done
    then show ?thesis
      using assms(2) by (simp add: finish_Done)
  qed (use assms(1) in simp_all)
  then show "elems (heap (finish grow c p)) r = elems (heap p) r"
    and "safe r (finish grow c p)"
    by simp_all
qed

lemma finish_fresh_alloc:
  assumes "fresh c" and "allocated p"
  shows "allocated (finish grow c p)"
proof (cases c)
  case (AddScan u)
  obtain s m where a: "append1 grow (users_mem (tracker p)) u (heap p) = (s, m)"
    by (metis surj_pair)
  have "ptr s < brk m"
    using assms(2) a by (auto simp: allocated_def intro: append1_alloc)
  then show ?thesis
    using assms(2) by (simp add: AddScan finish_AddScan a allocated_def)
next
  case (RebuildBegin keep)
  then show ?thesis
    by (simp add: finish_RebuildBegin rebuild_users_alloc)
next
  case Done
  then show ?thesis
    using assms(2) by (simp add: finish_Done)
qed (use assms(1) in simp_all)

lemma handleStart_reports: "reports (snd (handleStart method body now ws)) = reports ws"
  by (simp add: handleStart_def Let_def split: option.split)

lemma handleStop_reports:
  "reports (snd (handleStop method now metrics t ws)) = reports ws
   \<or> (\<exists>r. TrackedUsers r = t \<and> reports (snd (handleStop method now metrics t ws)) = reports ws @ [r])"
  by (simp add: handleStop_def split: option.split)

lemma runTest_reports:
  "reports (runTest parse ctx req t0 t1 metrics t ws) = reports ws
   \<or> (\<exists>r. TrackedUsers r = t \<and> reports (runTest parse ctx req t0 t1 metrics t ws) = reports ws @ [r])"
  by (simp add: runTest_def Let_def split: option.split)

lemma DeleteUser_begin_shape:
  "DeleteUser_begin srv u p = (res, c, p') \<Longrightarrow>
   fresh c \<and> heap p' = heap p \<and> tracker p' = tracker p"
  by (auto simp: DeleteUser_begin_def split: if_splits prod.splits option.splits)

lemma ReduceLoad_begin_shape:
  "ReduceLoad_begin srv fmt_v rnd n p = (res, c, p') \<Longrightarrow>
   fresh c \<and> heap p' = heap p \<and> tracker p' = tracker p"
  by (auto simp: ReduceLoad_begin_def Let_def split: prod.splits)

lemma DeleteTestUsers_begin_shape:
  "DeleteTestUsers_begin srv rnd n p = (res, c, p') \<Longrightarrow>
   fresh c \<and> heap p' = heap p \<and> tracker p' = tracker p"
  by (auto simp: DeleteTestUsers_begin_def Let_def
      split: if_splits prod.splits option.splits response.splits)

lemma begin_op_shape:
  assumes "begin_op srv fmt_v parse op sys = (c, sys')"
  shows "fresh c" and "heap (proc sys') = heap (proc sys)"
    and "tracker (proc sys') = tracker (proc sys)" and "calls sys' = calls sys"
proof -
  have "fresh c \<and> heap (proc sys') = heap (proc sys)
      \<and> tracker (proc sys') = tracker (proc sys) \<and> calls sys' = calls sys"
  proof (cases op)
    case (DeleteUserOp u)
    then show ?thesis
      using assms DeleteUser_begin_shape [of srv u "proc sys"]
      by (auto split: prod.splits)
  next
    case (ReduceLoadOp rnd n)
    then show ?thesis
      using assms ReduceLoad_begin_shape [of srv fmt_v rnd n "proc sys"]
      by (auto split: prod.splits)
  next
    case (DeleteTestUsersOp rnd n)
    then show ?thesis
      using assms DeleteTestUsers_begin_shape [of srv rnd n "proc sys"]
      by (auto split: prod.splits)
  qed (use assms in auto)
  then show "fresh c" and "heap (proc sys') = heap (proc sys)"
    and "tracker (proc sys') = tracker (proc sys)" and "calls sys' = calls sys"
    by simp_all
qed

lemma begin_op_reports:
  assumes "begin_op srv fmt_v parse op sys = (c, sys')"
  shows "reports (web sys') = reports (web sys)
     \<or> (\<exists>r. TrackedUsers r = GetTrackedUsers_mem (proc sys) \<and> c = Done
           \<and> reports (web sys') = reports (web sys) @ [r])"
proof (cases op)
  case (StopOp verb t metrics)
  then show ?thesis
    using assms handleStop_reports [of verb t metrics "GetTrackedUsers_mem (proc sys)" "web sys"]
    by auto
next
  case (RunTestOp ctx req t0 t1 metrics)
  then show ?thesis
    using assms runTest_reports [of parse ctx req t0 t1 metrics "GetTrackedUsers_mem (proc sys)" "web sys"]
    by auto
qed (use assms in \<open>auto simp: handleStart_reports split: prod.splits\<close>)

lemma step_Whole:
  "begin_op srv fmt_v parse op sys = (c, sys1) \<Longrightarrow>
   step srv fmt_v grow parse (Whole op) sys = sys1\<lparr>proc := finish grow c (proc sys1)\<rparr>"
  by simp

lemma step_Begin:
  "begin_op srv fmt_v parse op sys = (c, sys1) \<Longrightarrow>
   step srv fmt_v grow parse (Begin t op) sys = sys1\<lparr>calls := (calls sys1)(t := c)\<rparr>"
  by simp

lemma step_Step: "web (step srv fmt_v grow parse (Step t) sys) = web sys"
  by (simp split: prod.split)

declare step.simps [simp del]

lemma step_reports:
  "reports (web (step srv fmt_v grow parse ev sys)) = reports (web sys)
   \<or> (\<exists>r. reports (web (step srv fmt_v grow parse ev sys)) = reports (web sys) @ [r])"
proof (cases ev)
  case (Whole op)
  obtain c sys1 where b: "begin_op srv fmt_v parse op sys = (c, sys1)"
    by (metis surj_pair)
  show ?thesis
    using begin_op_reports [OF b] by (auto simp: Whole step_Whole [OF b])
next
  case (Begin t op)
  obtain c sys1 where b: "begin_op srv fmt_v parse op sys = (c, sys1)"
    by (metis surj_pair)
  show ?thesis
    using begin_op_reports [OF b] by (auto simp: Begin step_Begin [OF b])
next
  case (Step t)
  then show ?thesis
    by (simp add: step_Step)
qed

lemma step_reports_prefix:
  "take (length (reports (web sys))) (reports (web (step srv fmt_v grow parse ev sys))) = reports (web sys)"
  using step_reports [of srv fmt_v grow parse ev sys] by auto

lemma exec_reports_prefix:
  "take (length (reports (web sys))) (reports (web (exec srv fmt_v grow parse evs sys))) = reports (web sys)"
proof (induction evs arbitrary: sys)
  case Nil
  then show ?case by (simp add: exec_def)
next
  case (Cons ev evs)
  let ?sys1 = "step srv fmt_v grow parse ev sys"
  have a: "take (length (reports (web ?sys1))) (reports (web (exec srv fmt_v grow parse evs ?sys1)))
        = reports (web ?sys1)"
    by (rule Cons.IH)
  have b: "take (length (reports (web sys))) (reports (web ?sys1)) = reports (web sys)"
    by (rule step_reports_prefix)
  have c: "length (reports (web sys)) \<le> length (reports (web ?sys1))"
    using step_reports [of srv fmt_v grow parse ev sys] by auto
  have "take (length (reports (web sys))) (reports (web (exec srv fmt_v grow parse evs ?sys1)))
      = take (length (reports (web sys))) (take (length (reports (web ?sys1)))
          (reports (web (exec srv fmt_v grow parse evs ?sys1))))"
    using c by (simp add: min_def)
  also have "\<dots> = reports (web sys)"
    using a b by simp
  finally show ?case by (simp add: exec_def)
qed

lemma safe_current: "allocated p \<Longrightarrow> safe (GetTrackedUsers_mem p) p"
  by (simp add: allocated_def safe_def untouchable_def GetTrackedUsers_mem_def)

lemma safe_same: "heap p' = heap p \<Longrightarrow> tracker p' = tracker p \<Longrightarrow> safe r p' = safe r p"
  by (simp add: safe_def)

lemma allocated_same: "heap p' = heap p \<Longrightarrow> tracker p' = tracker p \<Longrightarrow> allocated p' = allocated p"
  by (simp add: allocated_def)

lemma Whole_sound:
  assumes "sound sys"
  shows "sound (step srv fmt_v grow parse (Whole op) sys)"
    and "r \<in> set (reports (web sys)) \<Longrightarrow>
         report_users (step srv fmt_v grow parse (Whole op) sys) r = report_users sys r"
proof -
  obtain c sys1 where b: "begin_op srv fmt_v parse op sys = (c, sys1)"
    by (metis surj_pair)
  note sh = begin_op_shape [OF b]
  let ?sys' = "step srv fmt_v grow parse (Whole op) sys"
  have st: "?sys' = sys1\<lparr>proc := finish grow c (proc sys1)\<rparr>"
    using b by (rule step_Whole)
  have al1: "allocated (proc sys1)"
    using assms allocated_same [OF sh(2) sh(3)] by (simp add: sound_def)
  have al: "allocated (proc ?sys')"
    using finish_fresh_alloc [OF sh(1) al1] by (simp add: st)
  have old: "safe (TrackedUsers r) (proc ?sys')
      \<and> elems (heap (proc ?sys')) (TrackedUsers r) = elems (heap (proc sys)) (TrackedUsers r)"
    if "r \<in> set (reports (web sys))" for r
  proof -
    have "safe (TrackedUsers r) (proc sys1)"
      using assms that safe_same [OF sh(2) sh(3)] by (simp add: sound_def)
    then show ?thesis
      using finish_fresh_frame [OF sh(1), of "TrackedUsers r" "proc sys1" grow] sh(2)
      by (simp add: st)
  qed
  have new: "safe (TrackedUsers r) (proc ?sys')" if r: "r \<in> set (reports (web ?sys'))" for r
  proof -
    from begin_op_reports [OF b]
    consider "reports (web sys1) = reports (web sys)"
      | r' where "TrackedUsers r' = GetTrackedUsers_mem (proc sys)" "c = Done"
          "reports (web sys1) = reports (web sys) @ [r']"
      by blast
    then show ?thesis
    proof cases
      case 1
      then show ?thesis using r old by (simp add: st)
    next
      case 2
      show ?thesis
      proof (cases "r = r'")
        case True
        have "safe (GetTrackedUsers_mem (proc sys)) (proc sys)"
          using assms by (simp add: sound_def safe_current)
        then have "safe (TrackedUsers r) (proc sys1)"
          using True 2(1) safe_same [OF sh(2) sh(3)] by simp
        then show ?thesis
          using 2(2) by (simp add: st finish_Done)
      next
        case False
        then show ?thesis using 2 r old by (simp add: st)
      qed
    qed
  qed
  show "sound ?sys'"
    using al new by (simp add: sound_def)
  show "r \<in> set (reports (web sys)) \<Longrightarrow> report_users ?sys' r = report_users sys r"
    using old by (simp add: report_users_def)
qed

lemma serial_sound: "sound sys \<Longrightarrow> sound (exec srv fmt_v grow parse (map Whole ops) sys)"
  by (induction ops arbitrary: sys) (simp_all add: exec_def Whole_sound(1))

lemma sound_boot: "sound (boot cfg)"
  by (simp add: sound_def boot_def New_mem_def make_slice_def allocated_def NewWebServer_def)

lemma serial_report_users:
  "sound sys \<Longrightarrow> r \<in> set (reports (web sys)) \<Longrightarrow>
   report_users (exec srv fmt_v grow parse (map Whole ops) sys) r = report_users sys r"
proof (induction ops arbitrary: sys)
  case Nil
  then show ?case by (simp add: exec_def)
next
  case (Cons op ops)
  let ?sys1 = "step srv fmt_v grow parse (Whole op) sys"
  have s1: "sound ?sys1"
    using Cons.prems(1) by (rule Whole_sound(1))
  have "r \<in> set (take (length (reports (web sys))) (reports (web ?sys1)))"
    using Cons.prems(2) by (simp add: step_reports_prefix)
  then have r1: "r \<in> set (reports (web ?sys1))"
    by (rule in_set_takeD)
  have "report_users (exec srv fmt_v grow parse (map Whole ops) ?sys1) r = report_users ?sys1 r"
    using s1 r1 by (rule Cons.IH)
  then show ?case
    using Whole_sound(2) [OF Cons.prems, of srv fmt_v grow parse op] by (simp add: exec_def)
qed

subsection \<open>A call that runs alone behaves as the tracker on lists\<close>

lemma append1_elems:
  assumes "wf_slice m s" and "append1 grow s x m = (s', m')"
  shows "elems m' s' = elems m s @ [x]" and "wf_slice m' s'"
  using assms
  by (auto simp: append1_def wf_slice_def elems_def take_Suc_conv_app_nth split: if_splits)

lemma remaining_loop_elems:
  assumes "wf_slice m s" and "ptr src < b" and "b \<le> ptr s" and "b \<le> brk m"
    and "\<forall>i \<in> set is. i < len src"
    and "remaining_loop grow keep src is (s, m) = (s', m')"
  shows "elems m' s' = elems m s @ filter keep (map (\<lambda>i. elems m src ! i) is) \<and> wf_slice m' s'"
  using assms
proof (induction "is" arbitrary: s m)
  case Nil
  then show ?case by simp
next
  case (Cons i "is")
  have i: "i < len src"
    using Cons.prems(5) by simp
  then have rd: "arrays m (ptr src) ! i = elems m src ! i"
    by (simp add: elems_def)
  have rest: "\<forall>i \<in> set is. i < len src"
    using Cons.prems(5) by simp
  show ?case
  proof (cases "keep (arrays m (ptr src) ! i)")
    case True
    obtain s1 m1 where a: "append1 grow s (arrays m (ptr src) ! i) m = (s1, m1)"
      by (metis surj_pair)
    have step: "remaining_loop grow keep src is (s1, m1) = (s', m')"
      using Cons.prems(6) True a by simp
    have e: "elems m1 s1 = elems m s @ [arrays m (ptr src) ! i]" "wf_slice m1 s1"
      using append1_elems [OF Cons.prems(1) a] by simp_all
    have f: "elems m1 src = elems m src" "b \<le> ptr s1" "b \<le> brk m1"
      using append1_fresh_frame [OF Cons.prems(2-4) a] by simp_all
    show ?thesis
      using Cons.IH [OF e(2) Cons.prems(2) f(2) f(3) rest step] e(1) f(1) True rd by simp
  next
    case False
    then have "remaining_loop grow keep src is (s, m) = (s', m')"
      using Cons.prems(6) by simp
    then show ?thesis
      using Cons.IH [OF Cons.prems(1-4) rest] False rd by simp
  qed
qed

lemma rebuild_users_refines:
  assumes "wf_process p"
  shows "tracked_list (rebuild_users grow keep p) = filter keep (tracked_list p)"
    and "wf_process (rebuild_users grow keep p)"
    and "config_mem (tracker (rebuild_users grow keep p)) = config_mem (tracker p)"
    and "sent (rebuild_users grow keep p) = sent p"
proof -
  let ?src = "users_mem (tracker p)"
  let ?b = "brk (heap p)"
  obtain s0 m0 where mk: "make_slice 0 (heap p) = (s0, m0)"
    by (metis surj_pair)
  obtain s' m' where lp: "remaining_loop grow keep ?src [0..<len ?src] (s0, m0) = (s', m')"
    by (metis surj_pair)
  have src: "ptr ?src < ?b" "len ?src \<le> length (arrays (heap p) (ptr ?src))"
    using assms by (simp_all add: wf_process_def wf_slice_def)
  have s0: "wf_slice m0 s0" "?b \<le> ptr s0" "?b \<le> brk m0" "elems m0 s0 = []"
    "elems m0 ?src = elems (heap p) ?src"
    using mk src(1) by (auto simp: make_slice_def wf_slice_def elems_def)
  have "elems m' s' = elems m0 s0 @ filter keep (map (\<lambda>i. elems m0 ?src ! i) [0..<len ?src])
      \<and> wf_slice m' s'"
    using remaining_loop_elems [OF s0(1) src(1) s0(2) s0(3) _ lp] by simp
  moreover have "length (elems (heap p) ?src) = len ?src"
    using src(2) by (simp add: elems_def)
  then have "map (\<lambda>i. elems (heap p) ?src ! i) [0..<len ?src] = elems (heap p) ?src"
    by (metis map_nth)
  ultimately have r: "elems m' s' = filter keep (elems (heap p) ?src)" "wf_slice m' s'"
    using s0(4) s0(5) by simp_all
  have res: "rebuild_users grow keep p = p\<lparr>tracker := (tracker p)\<lparr>users_mem := s'\<rparr>, heap := m'\<rparr>"
    by (simp add: rebuild_users_def mk lp)
  show "tracked_list (rebuild_users grow keep p) = filter keep (tracked_list p)"
    using r(1) by (simp add: res tracked_list_def)
  show "wf_process (rebuild_users grow keep p)"
    using r(2) by (simp add: res wf_process_def)
  show "config_mem (tracker (rebuild_users grow keep p)) = config_mem (tracker p)"
    by (simp add: res)
  show "sent (rebuild_users grow keep p) = sent p"
    by (simp add: res)
qed



lemma wf_process_sent [simp]: "wf_process (p\<lparr>sent := lg\<rparr>) = wf_process p"
  by (simp add: wf_process_def)

lemma tracked_list_sent [simp]: "tracked_list (p\<lparr>sent := lg\<rparr>) = tracked_list p"
  by (simp add: tracked_list_def)

lemma abstract_sent [simp]: "abstract (p\<lparr>sent := lg\<rparr>) = abstract p"
  by (simp add: abstract_def)

lemma abstract_rebuild:
  "wf_process p \<Longrightarrow>
   abstract (rebuild_users grow keep (p\<lparr>sent := lg\<rparr>)) = (abstract p)\<lparr>users := filter keep (users (abstract p))\<rparr>"
  using rebuild_users_refines(1,3) [of "p\<lparr>sent := lg\<rparr>" grow keep]
  by (simp add: abstract_def)

lemma AddUser_alone_refines:
  assumes "wf_process p"
  shows "abstract (finish grow (AddScan u) p) = AddUser u (abstract p)"
    and "wf_process (finish grow (AddScan u) p)"
    and "sent (finish grow (AddScan u) p) = sent p"
proof -
  obtain s m where a: "append1 grow (users_mem (tracker p)) u (heap p) = (s, m)"
    by (metis surj_pair)
  have e: "elems m s = tracked_list p @ [u]" "wf_slice m s"
    using append1_elems [OF _ a] assms by (simp_all add: wf_process_def tracked_list_def)
  show "abstract (finish grow (AddScan u) p) = AddUser u (abstract p)"
    using e(1) by (simp add: finish_AddScan AddUser_def abstract_def a tracked_list_def)
  show "wf_process (finish grow (AddScan u) p)"
    using e(2) assms by (simp add: finish_AddScan a wf_process_def)
  show "sent (finish grow (AddScan u) p) = sent p"
    by (simp add: finish_AddScan a)
qed

lemma DeleteUser_alone_refines:
  assumes "wf_process p" and "DeleteUser_begin srv u p = (res, c, p')"
  shows "(res, abstract (finish grow c p'), sent (finish grow c p'))
          = DeleteUser srv u (abstract p) (sent p)"
    and "wf_process (finish grow c p')"
proof -
  have cfg: "config (abstract p) = config_mem (tracker p)" "users (abstract p) = tracked_list p"
    by (simp_all add: abstract_def)
  show "(res, abstract (finish grow c p'), sent (finish grow c p'))
          = DeleteUser srv u (abstract p) (sent p)"
    using assms
    by (auto simp: DeleteUser_begin_def DeleteUser_def cfg [symmetric] abstract_rebuild
          finish_Done finish_RebuildBegin rebuild_users_refines(4)
          split: prod.splits option.splits if_splits)
  show "wf_process (finish grow c p')"
    using assms
    by (auto simp: DeleteUser_begin_def finish_Done finish_RebuildBegin rebuild_users_refines(2)
          split: prod.splits option.splits if_splits)
qed

lemma ReduceLoad_alone_refines:
  assumes "wf_process p" and "ReduceLoad_begin srv fmt_v rnd n p = (res, c, p')"
  shows "(res, abstract (finish grow c p'), sent (finish grow c p'))
          = ReduceLoad srv fmt_v rnd n (abstract p) (sent p)"
    and "wf_process (finish grow c p')"
proof -
  have cfg: "config (abstract p) = config_mem (tracker p)" "users (abstract p) = tracked_list p"
    by (simp_all add: abstract_def)
  show "(res, abstract (finish grow c p'), sent (finish grow c p'))
          = ReduceLoad srv fmt_v rnd n (abstract p) (sent p)"
    using assms
    by (auto simp: ReduceLoad_begin_def ReduceLoad_def Let_def cfg [symmetric] abstract_rebuild
          finish_RebuildBegin rebuild_users_refines(4) split: prod.splits)
  show "wf_process (finish grow c p')"
    using assms
    by (auto simp: ReduceLoad_begin_def Let_def finish_RebuildBegin rebuild_users_refines(2)
          split: prod.splits)
qed

lemma DeleteTestUsers_alone_refines:
  assumes "wf_process p" and "DeleteTestUsers_begin srv rnd n p = (res, c, p')"
  shows "(res, abstract (finish grow c p'), sent (finish grow c p'))
          = DeleteTestUsers srv rnd n (abstract p) (sent p)"
    and "wf_process (finish grow c p')"
proof -
  have cfg: "config (abstract p) = config_mem (tracker p)" "users (abstract p) = tracked_list p"
    by (simp_all add: abstract_def)
  show "(res, abstract (finish grow c p'), sent (finish grow c p'))
          = DeleteTestUsers srv rnd n (abstract p) (sent p)"
    using assms
    by (auto simp: DeleteTestUsers_begin_def DeleteTestUsers_def Let_def cfg [symmetric]
          fallback_candidates_def abstract_rebuild finish_Done finish_RebuildBegin
          rebuild_users_refines(4)
          split: prod.splits option.splits response.splits if_splits)
  show "wf_process (finish grow c p')"
    using assms
    by (auto simp: DeleteTestUsers_begin_def Let_def finish_Done finish_RebuildBegin
          rebuild_users_refines(2)
          split: prod.splits option.splits response.splits if_splits)
qed

lemma wf_process_boot: "wf_process (proc (boot cfg))"
  by (simp add: boot_def New_mem_def make_slice_def wf_process_def wf_slice_def)

subsection \<open>Reports under overlapping calls and under separate calls\<close>

text \<open>
  C6, as stated: a report would hold a frozen copy of the tracked list, which no later
  operation of the tracker can change. The report holds the slice header of \<open>c.users\<close>,
  over the same array. In the first schedule goroutine 1 has loaded the header for the
  \<open>append\<close> of \<open>AddUser(user_2)\<close> when \<open>user_1\<close> is added and the report of the run is
  built: the report shows \<open>user_0\<close>, \<open>user_1\<close>. Then goroutine 1 appends through the header
  it loaded, and the same report, with the same header, shows \<open>user_0\<close>, \<open>user_2\<close>. In the
  second schedule the report shows \<open>user_0\<close>, \<open>user_2\<close>, \<open>user_3\<close>; goroutine 1 then stores
  its older header, and \<open>AddUser(user_4)\<close>, called after the report was appended and run
  from start to end, makes the report show \<open>user_0\<close>, \<open>user_2\<close>, \<open>user_4\<close>.
\<close>

theorem C6_overlapping_AddUser_counterexample:
  "map TrackedUsers (reports (web overlap_at_report)) = [\<lparr>ptr = 1, len = 2, cap = 3\<rparr>]
   \<and> map (report_users overlap_at_report) (reports (web overlap_at_report)) = [[''user_0'', ''user_1'']]
   \<and> map TrackedUsers (reports (web overlap_afterwards)) = [\<lparr>ptr = 1, len = 2, cap = 3\<rparr>]
   \<and> map (report_users overlap_afterwards) (reports (web overlap_afterwards)) = [[''user_0'', ''user_2'']]
   \<and> map TrackedUsers (reports (web stale_at_report)) = [\<lparr>ptr = 1, len = 3, cap = 3\<rparr>]
   \<and> map (report_users stale_at_report) (reports (web stale_at_report))
       = [[''user_0'', ''user_2'', ''user_3'']]
   \<and> map TrackedUsers (reports (web stale_afterwards)) = [\<lparr>ptr = 1, len = 3, cap = 3\<rparr>]
   \<and> map (report_users stale_afterwards) (reports (web stale_afterwards))
       = [[''user_0'', ''user_2'', ''user_4'']]"
  by code_simp

text \<open>
  C6, amended: a report keeps the slice header that \<open>GetTrackedUsers\<close> returned when the
  report was built. Under every schedule the reports list only grows: the reports present
  at some moment are still there later, unchanged and in the same positions. And when
  the operations (\<open>AddUser\<close>, \<open>DeleteUser\<close>, \<open>ReduceLoad\<close>, \<open>DeleteTestUsers\<close>, starts, stops
  and completions of runs) run one at a time, each from start to end, from start-up on,
  the usernames read through the \<open>tracked_users\<close> slice of a report never change after the
  report was appended.
\<close>

theorem C6_reports_frozen_without_overlap:
  "take (length (reports (web (exec srv fmt_v grow parse evs (boot cfg)))))
        (reports (web (exec srv fmt_v grow parse evs' (exec srv fmt_v grow parse evs (boot cfg)))))
     = reports (web (exec srv fmt_v grow parse evs (boot cfg)))
   \<and> map (report_users (exec srv fmt_v grow parse (map Whole later)
              (exec srv fmt_v grow parse (map Whole before) (boot cfg))))
        (reports (web (exec srv fmt_v grow parse (map Whole before) (boot cfg))))
     = map (report_users (exec srv fmt_v grow parse (map Whole before) (boot cfg)))
        (reports (web (exec srv fmt_v grow parse (map Whole before) (boot cfg))))"
proof -
  let ?s1 = "exec srv fmt_v grow parse (map Whole before) (boot cfg)"
  have "sound ?s1"
    using sound_boot by (rule serial_sound)
  then have "report_users (exec srv fmt_v grow parse (map Whole later) ?s1) r = report_users ?s1 r"
    if "r \<in> set (reports (web ?s1))" for r
    using that by (rule serial_report_users)
  then show ?thesis
    by (simp add: exec_reports_prefix)
qed

theorem C6_reports_frozen_witness:
  "map TrackedUsers (reports (web at_report)) = [\<lparr>ptr = 1, len = 2, cap = 3\<rparr>]
   \<and> users_mem (tracker (proc after_one)) = \<lparr>ptr = 1, len = 3, cap = 3\<rparr>
   \<and> map (report_users at_report) (reports (web at_report)) = [[''user_0'', ''user_1'']]
   \<and> map (report_users afterwards) (reports (web at_report)) = [[''user_0'', ''user_1'']]
   \<and> tracked_list (proc afterwards) = [''user_1'']"
proof -
  have a: "map TrackedUsers (reports (web at_report)) = [\<lparr>ptr = 1, len = 2, cap = 3\<rparr>]"
    by code_simp
  have b: "users_mem (tracker (proc after_one)) = \<lparr>ptr = 1, len = 3, cap = 3\<rparr>"
    by code_simp
  have c: "map (report_users at_report) (reports (web at_report)) = [[''user_0'', ''user_1'']]"
    by code_simp
  have d: "tracked_list (proc afterwards) = [''user_1'']"
    by code_simp
  have "map (report_users afterwards) (reports (web at_report))
      = map (report_users at_report) (reports (web at_report))"
    using C6_reports_frozen_without_overlap [of "always (Resp 200 None)" fmt_plain grow_two example_ParseDuration
        "[]" example_cfg "[]" history_later history_before]
    by (simp add: afterwards_def at_report_def)
  with a b c d show ?thesis by simp
qed

end
